theory Spec2Isabelle
  imports Main "HOL-Library.Word"
begin

unbundle bit_operations_syntax

section \<open>qdl.c: file classification, USB session bootstrap, bulk read and write\<close>

text \<open>
  A shallow embedding of \<^verbatim>\<open>src/qdl.c\<close>, built without \<^verbatim>\<open>DEBUG_PARSE\<close> for an LP64
  target (\<^verbatim>\<open>int\<close> has 32 bits, \<^verbatim>\<open>size_t\<close> has 64). The effects whose order the
  properties speak of are recorded as a trace of events: \<^verbatim>\<open>xmlReadFile\<close>, the usage text,
  the three loaders, every libusb call and the two protocol engines append one event
  each. What a callee answers is a parameter of the model. \<^verbatim>\<open>err\<close> and \<^verbatim>\<open>errx\<close> end the
  process, which is the outcome \<open>Exit\<close>; \<open>Undefined_behaviour\<close> is the use of an
  indeterminate value or a division by zero.
\<close>

subsection \<open>Outcomes and error numbers\<close>

datatype 'a outcome =
    Return 'a
  | Exit int
  | Undefined_behaviour

definition EINVAL :: int where "EINVAL = 22"
definition ENOENT :: int where "ENOENT = 2"

subsection \<open>XML documents as libxml2 presents them\<close>

datatype xmlElementType =
    XML_ELEMENT_NODE
  | XML_ATTRIBUTE_NODE
  | XML_TEXT_NODE
  | XML_CDATA_SECTION_NODE
  | XML_ENTITY_REF_NODE
  | XML_PI_NODE
  | XML_COMMENT_NODE

text \<open>
  A node carries the three fields \<^verbatim>\<open>detect_type\<close> reads: \<^verbatim>\<open>type\<close>, \<^verbatim>\<open>name\<close> and the
  \<^verbatim>\<open>children\<close>/\<^verbatim>\<open>next\<close> chain, which is the list of its children in document order.
  A parsed document is identified with its root element, which every well-formed
  document has.
\<close>

datatype xmlNode =
  XmlNode (node_type: xmlElementType) (node_name: string) (node_children: "xmlNode list")

type_synonym xmlDoc = xmlNode

definition xmlDocGetRootElement :: "xmlDoc \<Rightarrow> xmlNode" where
  "xmlDocGetRootElement doc = doc"

text \<open>\<^verbatim>\<open>xmlStrcmp\<close> is 0 exactly on equal strings; only that is used.\<close>

definition xmlStrcmp :: "string \<Rightarrow> string \<Rightarrow> int" where
  "xmlStrcmp a b = (if a = b then 0 else 1)"

subsection \<open>The file kinds and \<^verbatim>\<open>detect_type\<close>\<close>

definition QDL_FILE_UNKNOWN :: int where "QDL_FILE_UNKNOWN = 0"
definition QDL_FILE_PATCH :: int where "QDL_FILE_PATCH = 1"
definition QDL_FILE_PROGRAM :: int where "QDL_FILE_PROGRAM = 2"
definition QDL_FILE_UFS :: int where "QDL_FILE_UFS = 3"
definition QDL_FILE_CONTENTS :: int where "QDL_FILE_CONTENTS = 4"

text \<open>
  The loop of lines 95 to 106 over the children of a \<^verbatim>\<open>data\<close> root; \<open>ty\<close> is the
  local \<^verbatim>\<open>type\<close>, returned unchanged when the chain ends without a \<^verbatim>\<open>break\<close>.
\<close>

fun detect_children :: "xmlNode list \<Rightarrow> int \<Rightarrow> int" where
  "detect_children [] ty = ty"
| "detect_children (node # rest) ty =
     (if node_type node \<noteq> XML_ELEMENT_NODE then detect_children rest ty
      else if xmlStrcmp (node_name node) ''program'' = 0 then QDL_FILE_PROGRAM
      else if xmlStrcmp (node_name node) ''ufs'' = 0 then QDL_FILE_UFS
      else detect_children rest ty)"

text \<open>
  \<^verbatim>\<open>detect_type\<close> after \<^verbatim>\<open>xmlReadFile\<close>, whose answer is the argument: \<open>None\<close> is the
  null pointer libxml2 gives for a file it cannot read or that is not well-formed.
\<close>

definition detect_type :: "xmlDoc option \<Rightarrow> int" where
  "detect_type doc =
     (case doc of
        None \<Rightarrow> - EINVAL
      | Some d \<Rightarrow>
          (let root = xmlDocGetRootElement d in
           if xmlStrcmp (node_name root) ''patches'' = 0 then QDL_FILE_PATCH
           else if xmlStrcmp (node_name root) ''data'' = 0
             then detect_children (node_children root) QDL_FILE_UNKNOWN
           else if xmlStrcmp (node_name root) ''contents'' = 0 then QDL_FILE_CONTENTS
           else QDL_FILE_UNKNOWN))"

text \<open>
  The classification as the specification words it, to compare with the code: the value
  for a \<^verbatim>\<open>data\<close> root is decided by the first direct element child named \<^verbatim>\<open>program\<close> or
  \<^verbatim>\<open>ufs\<close>.
\<close>

datatype FileKind = Unknown | Patch | Program | StorageProvisioning | Contents

datatype ClassifyError = ParseError

definition kind_code :: "FileKind \<Rightarrow> int" where
  "kind_code k =
     (case k of Unknown \<Rightarrow> QDL_FILE_UNKNOWN | Patch \<Rightarrow> QDL_FILE_PATCH
      | Program \<Rightarrow> QDL_FILE_PROGRAM | StorageProvisioning \<Rightarrow> QDL_FILE_UFS
      | Contents \<Rightarrow> QDL_FILE_CONTENTS)"

definition classify_spec :: "xmlDoc option \<Rightarrow> ClassifyError + FileKind" where
  "classify_spec doc =
     (case doc of
        None \<Rightarrow> Inl ParseError
      | Some root \<Rightarrow>
          Inr (if node_name root = ''patches'' then Patch
               else if node_name root = ''contents'' then Contents
               else if node_name root = ''data'' then
                 (case find (\<lambda>n. node_type n = XML_ELEMENT_NODE
                                \<and> (node_name n = ''program'' \<or> node_name n = ''ufs''))
                         (node_children root) of
                    None \<Rightarrow> Unknown
                  | Some n \<Rightarrow> if node_name n = ''program'' then Program
                              else StorageProvisioning)
               else Unknown))"

definition result_code :: "ClassifyError + FileKind \<Rightarrow> int" where
  "result_code r = (case r of Inl ParseError \<Rightarrow> - EINVAL | Inr k \<Rightarrow> kind_code k)"

subsection \<open>Integer conversions\<close>

text \<open>
  A \<^verbatim>\<open>size_t\<close> value is a natural number below \<open>2 ^ 64\<close>, an \<^verbatim>\<open>int\<close> an integer between
  \<open>- 2 ^ 31\<close> and \<open>INT_MAX\<close>. The two conversions the code performs implicitly are written
  out: \<^verbatim>\<open>size_t\<close> to \<^verbatim>\<open>int\<close> keeps the low 32 bits in two's complement (as GCC and
  Clang define it), \<^verbatim>\<open>int\<close> to \<^verbatim>\<open>size_t\<close> reduces modulo \<open>2 ^ 64\<close>.
\<close>

definition INT_MAX :: int where "INT_MAX = 2147483647"

definition int_of_size_t :: "nat \<Rightarrow> int" where
  "int_of_size_t n =
     (let m = int (n mod 4294967296) in if m \<le> INT_MAX then m else m - 4294967296)"

definition size_t_of_int :: "int \<Rightarrow> nat" where
  "size_t_of_int i = nat (i mod 18446744073709551616)"

subsection \<open>USB descriptors as libusb presents them\<close>

text \<open>
  Constants of \<^verbatim>\<open>libusb.h\<close>.
\<close>

definition LIBUSB_DT_DEVICE :: "8 word" where "LIBUSB_DT_DEVICE = 0x01"
definition LIBUSB_DT_CONFIG :: "8 word" where "LIBUSB_DT_CONFIG = 0x02"
definition LIBUSB_DT_INTERFACE :: "8 word" where "LIBUSB_DT_INTERFACE = 0x04"
definition LIBUSB_DT_ENDPOINT :: "8 word" where "LIBUSB_DT_ENDPOINT = 0x05"
definition LIBUSB_DT_INTERFACE_SIZE :: nat where "LIBUSB_DT_INTERFACE_SIZE = 9"
definition LIBUSB_TRANSFER_TYPE_MASK :: "8 word" where "LIBUSB_TRANSFER_TYPE_MASK = 0x03"
definition LIBUSB_TRANSFER_TYPE_BULK :: "8 word" where "LIBUSB_TRANSFER_TYPE_BULK = 2"
definition LIBUSB_ENDPOINT_IN :: "8 word" where "LIBUSB_ENDPOINT_IN = 0x80"
definition LIBUSB_ERROR_NOT_FOUND :: int where "LIBUSB_ERROR_NOT_FOUND = - 5"

record libusb_endpoint_descriptor =
  ep_bDescriptorType :: "8 word"
  bEndpointAddress :: "8 word"
  bmAttributes :: "8 word"
  wMaxPacketSize :: "16 word"

text \<open>
  An interface descriptor is the first alternate setting of an interface, the only one
  the code reads (\<^verbatim>\<open>interface.altsetting->...\<close>). libusb allocates the \<^verbatim>\<open>endpoint\<close> array
  with \<^verbatim>\<open>bNumEndpoints\<close> entries and the \<^verbatim>\<open>interface\<close> array with \<^verbatim>\<open>bNumInterfaces\<close>
  entries, so each array is a list and its count is the length of the list.
\<close>

record libusb_interface_descriptor =
  ifc_bLength :: "8 word"
  ifc_bDescriptorType :: "8 word"
  bInterfaceNumber :: "8 word"
  bInterfaceClass :: "8 word"
  bInterfaceSubClass :: "8 word"
  bInterfaceProtocol :: "8 word"
  endpoint :: "libusb_endpoint_descriptor list"

record libusb_config_descriptor =
  cfg_bDescriptorType :: "8 word"
  interface :: "libusb_interface_descriptor list"

record libusb_device_descriptor =
  dev_bDescriptorType :: "8 word"
  idVendor :: "16 word"
  idProduct :: "16 word"
  bNumConfigurations :: "8 word"

type_synonym libusb_device_handle = nat

text \<open>
  A device is what libusb answers about it: the return code and the descriptor of
  \<^verbatim>\<open>libusb_get_device_descriptor\<close>, those of \<^verbatim>\<open>libusb_get_config_descriptor\<close> for the
  indices 0, 1, ..., and the return code and handle of \<^verbatim>\<open>libusb_open\<close>. An out
  parameter is meaningful only beside the return code 0.
\<close>

record libusb_device =
  device_descriptor :: "int \<times> libusb_device_descriptor"
  config_descriptors :: "(int \<times> libusb_config_descriptor) list"
  open_device :: "int \<times> libusb_device_handle"

definition libusb_get_config_descriptor ::
  "libusb_device \<Rightarrow> nat \<Rightarrow> int \<times> libusb_config_descriptor" where
  "libusb_get_config_descriptor d i =
     (if i < length (config_descriptors d) then config_descriptors d ! i
      else (LIBUSB_ERROR_NOT_FOUND, \<lparr>cfg_bDescriptorType = 0, interface = []\<rparr>))"

subsection \<open>The transport session\<close>

text \<open>
  \<^verbatim>\<open>struct qdl_device\<close>. A field is \<open>None\<close> while the object holds an indeterminate
  value: \<^verbatim>\<open>main\<close> declares the structure without an initialiser, and \<^verbatim>\<open>parse_usb_desc\<close>
  copies its locals \<^verbatim>\<open>in\<close>, \<^verbatim>\<open>out\<close>, \<^verbatim>\<open>in_size\<close> and \<^verbatim>\<open>out_size\<close> into it, which are
  declared without initialisers too.
\<close>

record qdl_device =
  handle :: "libusb_device_handle option"
  in_ep :: "int option"
  out_ep :: "int option"
  in_maxpktsize :: "nat option"
  out_maxpktsize :: "nat option"

definition qdl_uninitialised :: qdl_device where
  "qdl_uninitialised =
     \<lparr>handle = None, in_ep = None, out_ep = None, in_maxpktsize = None,
      out_maxpktsize = None\<rparr>"

subsection \<open>Events\<close>

text \<open>
  One event per external call, with the arguments of the call. A bulk transfer carries
  the handle, the endpoint, the bytes handed over for sending (none for a null
  pointer or a receiving buffer), the \<^verbatim>\<open>length\<close> argument and the timeout.
\<close>

datatype event =
    Xml_read_file string
  | Print_usage
  | Patch_load string
  | Program_load string
  | Ufs_load string bool
  | Libusb_init
  | Libusb_get_device_list
  | Libusb_get_device_descriptor libusb_device
  | Libusb_get_config_descriptor libusb_device nat
  | Libusb_open libusb_device
  | Libusb_free_device_list
  | Libusb_claim_interface libusb_device_handle int
  | Libusb_bulk_transfer libusb_device_handle int "8 word list" int nat
  | Sahara_run qdl_device string
  | Firehose_run qdl_device "string option" string

subsection \<open>\<^verbatim>\<open>parse_usb_desc\<close>\<close>

text \<open>The four locals of \<^verbatim>\<open>parse_usb_desc\<close> that the endpoint scan writes.\<close>

record scan_locals =
  l_in :: "int option"
  l_out :: "int option"
  l_in_size :: "nat option"
  l_out_size :: "nat option"

definition locals_uninitialised :: scan_locals where
  "locals_uninitialised = \<lparr>l_in = None, l_out = None, l_in_size = None, l_out_size = None\<rparr>"

text \<open>
  The loop over \<^verbatim>\<open>k\<close> (lines 168 to 185). \<open>None\<close> is the \<^verbatim>\<open>return -EINVAL\<close> of line 171.
\<close>

fun scan_endpoints :: "libusb_endpoint_descriptor list \<Rightarrow> scan_locals \<Rightarrow> scan_locals option" where
  "scan_endpoints [] s = Some s"
| "scan_endpoints (e # es) s =
     (if ep_bDescriptorType e \<noteq> LIBUSB_DT_ENDPOINT then None
      else if (bmAttributes e AND LIBUSB_TRANSFER_TYPE_MASK) \<noteq> LIBUSB_TRANSFER_TYPE_BULK
        then scan_endpoints es s
      else if (bEndpointAddress e AND LIBUSB_ENDPOINT_IN) \<noteq> 0
        then scan_endpoints es
               (s\<lparr>l_in := Some (uint (bEndpointAddress e)),
                  l_in_size := Some (unat (wMaxPacketSize e))\<rparr>)
      else scan_endpoints es
             (s\<lparr>l_out := Some (uint (bEndpointAddress e)),
                l_out_size := Some (unat (wMaxPacketSize e))\<rparr>))"

text \<open>
  The loop over \<^verbatim>\<open>j\<close> (lines 160 to 212). \<open>Inl\<close> is a return from, or an exit inside,
  \<^verbatim>\<open>parse_usb_desc\<close>: the return code with the contents of \<^verbatim>\<open>*qdl\<close> and \<^verbatim>\<open>*intf\<close>.
  \<open>Inr\<close> is the end of the loop, with the locals as the scan left them.
\<close>

fun scan_interfaces ::
  "libusb_device \<Rightarrow> libusb_interface_descriptor list \<Rightarrow> scan_locals \<Rightarrow> qdl_device \<Rightarrow> int
   \<Rightarrow> event list \<Rightarrow> ((int \<times> qdl_device \<times> int) outcome + scan_locals) \<times> event list" where
  "scan_interfaces d [] s qdl intf tr = (Inr s, tr)"
| "scan_interfaces d (ifc # rest) s qdl intf tr =
     (if ifc_bDescriptorType ifc \<noteq> LIBUSB_DT_INTERFACE
        then (Inl (Return (- EINVAL, qdl, intf)), tr)
      else if unat (ifc_bLength ifc) < LIBUSB_DT_INTERFACE_SIZE
        then (Inl (Return (- EINVAL, qdl, intf)), tr)
      else
        (case scan_endpoints (endpoint ifc) s of
           None \<Rightarrow> (Inl (Return (- EINVAL, qdl, intf)), tr)
         | Some s' \<Rightarrow>
             if bInterfaceClass ifc \<noteq> 0xff then scan_interfaces d rest s' qdl intf tr
             else if bInterfaceSubClass ifc \<noteq> 0xff then scan_interfaces d rest s' qdl intf tr
             else if bInterfaceProtocol ifc \<noteq> 0xff \<and> bInterfaceProtocol ifc \<noteq> 16
               then scan_interfaces d rest s' qdl intf tr
             else
               (let tr1 = tr @ [Libusb_open d];
                    (ret, h) = open_device d
                in if ret \<noteq> 0 then (Inl (Exit 1), tr1)
                   else (Inl (Return (0,
                           \<lparr>handle = Some h, in_ep = l_in s', out_ep = l_out s',
                            in_maxpktsize = l_in_size s', out_maxpktsize = l_out_size s'\<rparr>,
                           uint (bInterfaceNumber ifc))), tr1))))"

text \<open>
  The loop over \<^verbatim>\<open>i\<close> (lines 144 to 213), from index \<open>i\<close> with \<open>n\<close> configurations to
  go; the end of the loop is the \<^verbatim>\<open>return -EINVAL\<close> of line 214.
\<close>

fun scan_configs ::
  "libusb_device \<Rightarrow> nat \<Rightarrow> nat \<Rightarrow> scan_locals \<Rightarrow> qdl_device \<Rightarrow> int \<Rightarrow> event list
   \<Rightarrow> (int \<times> qdl_device \<times> int) outcome \<times> event list" where
  "scan_configs d i 0 s qdl intf tr = (Return (- EINVAL, qdl, intf), tr)"
| "scan_configs d i (Suc n) s qdl intf tr =
     (let tr1 = tr @ [Libusb_get_config_descriptor d i];
          (ret, config) = libusb_get_config_descriptor d i
      in if ret \<noteq> 0 then (Exit 1, tr1)
         else if cfg_bDescriptorType config \<noteq> LIBUSB_DT_CONFIG
           then (Return (- EINVAL, qdl, intf), tr1)
         else
           (case scan_interfaces d (interface config) s qdl intf tr1 of
              (Inl r, tr2) \<Rightarrow> (r, tr2)
            | (Inr s', tr2) \<Rightarrow> scan_configs d (Suc i) n s' qdl intf tr2))"

definition parse_usb_desc ::
  "libusb_device \<Rightarrow> qdl_device \<Rightarrow> int \<Rightarrow> event list
   \<Rightarrow> (int \<times> qdl_device \<times> int) outcome \<times> event list" where
  "parse_usb_desc d qdl intf tr =
     (let tr1 = tr @ [Libusb_get_device_descriptor d];
          (ret, desc) = device_descriptor d
      in if ret \<noteq> 0 then (Exit 1, tr1)
         else if idVendor desc \<noteq> 0x05c6 then (Return (- EINVAL, qdl, intf), tr1)
         else if idProduct desc \<noteq> 0x9008 then (Return (- EINVAL, qdl, intf), tr1)
         else if dev_bDescriptorType desc \<noteq> LIBUSB_DT_DEVICE
           then (Return (- EINVAL, qdl, intf), tr1)
         else scan_configs d 0 (unat (bNumConfigurations desc)) locals_uninitialised
                qdl intf tr1)"

subsection \<open>\<^verbatim>\<open>usb_open\<close>\<close>

text \<open>
  The host is what libusb answers beyond single devices: the return code of
  \<^verbatim>\<open>libusb_init\<close>, the count and the array of \<^verbatim>\<open>libusb_get_device_list\<close> (the array has
  as many entries as a non-negative count says), and the return code of
  \<^verbatim>\<open>libusb_claim_interface\<close> for a handle and an interface number.
\<close>

record usb_host =
  libusb_init_ret :: int
  libusb_get_device_list :: "int \<times> libusb_device list"
  libusb_claim_interface :: "libusb_device_handle \<Rightarrow> int \<Rightarrow> int"

text \<open>
  The loop of lines 232 to 238 over the devices still to visit: \<open>Some\<close> is the jump to
  \<^verbatim>\<open>found\<close>, \<open>None\<close> the end of the loop.
\<close>

fun usb_open_loop ::
  "libusb_device list \<Rightarrow> qdl_device \<Rightarrow> int \<Rightarrow> event list
   \<Rightarrow> (qdl_device \<times> int) option outcome \<times> event list" where
  "usb_open_loop [] qdl intf tr = (Return None, tr)"
| "usb_open_loop (d # ds) qdl intf tr =
     (case parse_usb_desc d qdl intf tr of
        (Return (ret, qdl', intf'), tr') \<Rightarrow>
          if ret = 0 then (Return (Some (qdl', intf')), tr')
          else usb_open_loop ds qdl' intf' tr'
      | (Exit c, tr') \<Rightarrow> (Exit c, tr')
      | (Undefined_behaviour, tr') \<Rightarrow> (Undefined_behaviour, tr'))"

text \<open>
  \<^verbatim>\<open>usb_open\<close> returns its code and the contents of \<^verbatim>\<open>*qdl\<close>.
\<close>

definition usb_open ::
  "usb_host \<Rightarrow> qdl_device \<Rightarrow> event list \<Rightarrow> (int \<times> qdl_device) outcome \<times> event list" where
  "usb_open host qdl tr =
     (let intf = - 1;
          tr1 = tr @ [Libusb_init]
      in if libusb_init_ret host \<noteq> 0 then (Exit 1, tr1)
         else
           (let tr2 = tr1 @ [Libusb_get_device_list];
                (usb_size, usb) = libusb_get_device_list host
            in if usb_size < 0 then (Exit 1, tr2)
               else
                 (case usb_open_loop (take (nat usb_size) usb) qdl intf tr2 of
                    (Return None, tr3) \<Rightarrow> (Return (- ENOENT, qdl), tr3)
                  | (Return (Some (qdl', intf')), tr3) \<Rightarrow>
                      (let tr4 = tr3 @ [Libusb_free_device_list]
                       in case handle qdl' of
                            None \<Rightarrow> (Undefined_behaviour, tr4)
                          | Some h \<Rightarrow>
                              (let tr5 = tr4 @ [Libusb_claim_interface h intf']
                               in if libusb_claim_interface host h intf' \<noteq> 0
                                    then (Exit 1, tr5)
                                  else (Return (0, qdl'), tr5)))
                  | (Exit c, tr3) \<Rightarrow> (Exit c, tr3)
                  | (Undefined_behaviour, tr3) \<Rightarrow> (Undefined_behaviour, tr3))))"

subsection \<open>\<^verbatim>\<open>qdl_read\<close> and \<^verbatim>\<open>qdl_write\<close>\<close>

text \<open>
  The transport answers a bulk transfer with its return code and the value it stores
  in \<^verbatim>\<open>transferred\<close>; the answer may depend on everything that happened before, so it is
  a function of the trace that ends in the transfer. Handing libusb an indeterminate
  handle or endpoint is undefined behaviour.
\<close>

type_synonym transport = "event list \<Rightarrow> int \<times> int"

definition libusb_bulk_transfer ::
  "transport \<Rightarrow> libusb_device_handle option \<Rightarrow> int option \<Rightarrow> 8 word list \<Rightarrow> int \<Rightarrow> nat
   \<Rightarrow> event list \<Rightarrow> (int \<times> int) option \<times> event list" where
  "libusb_bulk_transfer bulk h ep data len timeout tr =
     (case h of
        None \<Rightarrow> (None, tr)
      | Some h' \<Rightarrow>
          (case ep of
             None \<Rightarrow> (None, tr)
           | Some ep' \<Rightarrow>
               (let tr' = tr @ [Libusb_bulk_transfer h' ep' data len timeout]
                in (Some (bulk tr'), tr'))))"

text \<open>
  \<^verbatim>\<open>qdl_read\<close>; the bytes received into \<^verbatim>\<open>buf\<close> are not part of the model.
\<close>

definition qdl_read ::
  "transport \<Rightarrow> qdl_device \<Rightarrow> nat \<Rightarrow> nat \<Rightarrow> event list \<Rightarrow> int outcome \<times> event list" where
  "qdl_read bulk qdl len timeout tr =
     (case libusb_bulk_transfer bulk (handle qdl) (in_ep qdl) [] (int_of_size_t len) timeout tr of
        (None, tr') \<Rightarrow> (Undefined_behaviour, tr')
      | (Some (ret, transferred), tr') \<Rightarrow>
          (Return (if ret \<noteq> 0 then ret else transferred), tr'))"

text \<open>
  The loop of \<^verbatim>\<open>qdl_write\<close> (lines 264 to 274): \<open>data\<close> is the buffer from the pointer
  \<^verbatim>\<open>data\<close> on, \<open>sz\<close> is the local \<^verbatim>\<open>size\<close> and \<open>writed\<close> the local of that name. With a packet size of 0 the loop
  does not end while the transport accepts the empty transfers, which is the value
  \<open>None\<close>. Of the conditional expression the operand \<^verbatim>\<open>size\<close> goes to \<^verbatim>\<open>size_t\<close> and
  back to \<^verbatim>\<open>int\<close> unchanged; the operand \<^verbatim>\<open>qdl->out_maxpktsize\<close> is converted to \<^verbatim>\<open>int\<close>. \<open>writed + xfer\<close> stays within \<^verbatim>\<open>int\<close>: \<open>0 \<le> xfer \<le> sz\<close> holds in the loop.
\<close>

partial_function (option) qdl_write_loop ::
  "transport \<Rightarrow> qdl_device \<Rightarrow> 8 word list \<Rightarrow> int \<Rightarrow> int \<Rightarrow> event list
   \<Rightarrow> (int outcome \<times> event list) option" where
  "qdl_write_loop bulk qdl data sz writed tr =
     (if 0 < sz then
        (case out_maxpktsize qdl of
           None \<Rightarrow> Some (Undefined_behaviour, tr)
         | Some P \<Rightarrow>
             (let xfer = (if P < size_t_of_int sz then int_of_size_t P else sz)
              in case libusb_bulk_transfer bulk (handle qdl) (out_ep qdl)
                        (take (nat xfer) data) xfer 0 tr of
                   (None, tr') \<Rightarrow> Some (Undefined_behaviour, tr')
                 | (Some (ret, transferred), tr') \<Rightarrow>
                     if ret \<noteq> 0 then Some (Exit 1, tr')
                     else qdl_write_loop bulk qdl (drop (nat xfer) data) (sz - xfer)
                            (writed + xfer) tr'))
      else Some (Return writed, tr))"

declare qdl_write_loop.simps [code]

text \<open>
  \<^verbatim>\<open>qdl_write\<close>. The remainder \<^verbatim>\<open>len % qdl->out_maxpktsize\<close> is evaluated only when
  \<^verbatim>\<open>eot\<close> is set; with a packet size of 0 it is a division by zero.
\<close>

definition qdl_write ::
  "transport \<Rightarrow> qdl_device \<Rightarrow> 8 word list \<Rightarrow> nat \<Rightarrow> bool \<Rightarrow> event list
   \<Rightarrow> (int outcome \<times> event list) option" where
  "qdl_write bulk qdl buf len eot tr =
     (case qdl_write_loop bulk qdl buf (int_of_size_t len) 0 tr of
        None \<Rightarrow> None
      | Some (Return writed, tr1) \<Rightarrow>
          if eot then
            (case out_maxpktsize qdl of
               None \<Rightarrow> Some (Undefined_behaviour, tr1)
             | Some P \<Rightarrow>
                 if P = 0 then Some (Undefined_behaviour, tr1)
                 else if len mod P = 0 then
                   (case libusb_bulk_transfer bulk (handle qdl) (out_ep qdl) [] 0 0 tr1 of
                      (None, tr2) \<Rightarrow> Some (Undefined_behaviour, tr2)
                    | (Some (ret, transferred), tr2) \<Rightarrow>
                        if ret \<noteq> 0 then Some (Exit 1, tr2) else Some (Return writed, tr2))
                 else Some (Return writed, tr1))
          else Some (Return writed, tr1)
      | Some (Exit c, tr1) \<Rightarrow> Some (Exit c, tr1)
      | Some (Undefined_behaviour, tr1) \<Rightarrow> Some (Undefined_behaviour, tr1))"

subsection \<open>\<^verbatim>\<open>main\<close>\<close>

text \<open>
  The collaborators of \<^verbatim>\<open>main\<close>: libxml2's \<^verbatim>\<open>xmlReadFile\<close>, the three loaders, the USB
  host, and the two protocol engines. Each answers as a function of its arguments.
\<close>

record collaborators =
  xmlReadFile :: "string \<Rightarrow> xmlDoc option"
  patch_load :: "string \<Rightarrow> int"
  program_load :: "string \<Rightarrow> int"
  ufs_load :: "string \<Rightarrow> bool \<Rightarrow> int"
  usb :: usb_host
  sahara_run :: "qdl_device \<Rightarrow> string \<Rightarrow> int"
  firehose_run :: "qdl_device \<Rightarrow> string option \<Rightarrow> string \<Rightarrow> int"

text \<open>
  The variables the option loop sets, with their initial values: \<^verbatim>\<open>qdl_debug\<close> is a
  zero-initialised global, \<^verbatim>\<open>incdir\<close> is null, \<^verbatim>\<open>storage\<close> is \<^verbatim>\<open>"ufs"\<close>.
\<close>

record options =
  qdl_debug :: bool
  incdir :: "string option"
  qdl_finalize_provisioning :: bool
  storage :: string

definition initial_options :: options where
  "initial_options =
     \<lparr>qdl_debug = False, incdir = None, qdl_finalize_provisioning = False, storage = ''ufs''\<rparr>"

text \<open>
  The loop of lines 324 to 342 over the answers of \<^verbatim>\<open>getopt_long\<close>, each an option
  character with \<^verbatim>\<open>optarg\<close>, up to the answer \<open>-1\<close>. \<open>None\<close> is the \<^verbatim>\<open>default\<close> branch:
  usage and \<^verbatim>\<open>return 1\<close>.
\<close>

fun getopt_loop :: "(char \<times> string) list \<Rightarrow> options \<Rightarrow> options option" where
  "getopt_loop [] opts = Some opts"
| "getopt_loop ((opt, optarg) # rest) opts =
     (if opt = CHR ''d'' then getopt_loop rest (opts\<lparr>qdl_debug := True\<rparr>)
      else if opt = CHR ''i'' then getopt_loop rest (opts\<lparr>incdir := Some optarg\<rparr>)
      else if opt = CHR ''l'' then getopt_loop rest (opts\<lparr>qdl_finalize_provisioning := True\<rparr>)
      else if opt = CHR ''s'' then getopt_loop rest (opts\<lparr>storage := optarg\<rparr>)
      else None)"

text \<open>The body of the \<^verbatim>\<open>do\<close> loop (lines 353 to 376) for the file \<^verbatim>\<open>argv[optind]\<close>.\<close>

definition load_file ::
  "collaborators \<Rightarrow> bool \<Rightarrow> string \<Rightarrow> event list \<Rightarrow> unit outcome \<times> event list" where
  "load_file env finalize f tr =
     (let tr1 = tr @ [Xml_read_file f];
          ty = detect_type (xmlReadFile env f)
      in if ty < 0 \<or> ty = QDL_FILE_UNKNOWN then (Exit 1, tr1)
         else if ty = QDL_FILE_PATCH then
           (let tr2 = tr1 @ [Patch_load f]
            in if patch_load env f < 0 then (Exit 1, tr2) else (Return (), tr2))
         else if ty = QDL_FILE_PROGRAM then
           (let tr2 = tr1 @ [Program_load f]
            in if program_load env f < 0 then (Exit 1, tr2) else (Return (), tr2))
         else if ty = QDL_FILE_UFS then
           (let tr2 = tr1 @ [Ufs_load f finalize]
            in if ufs_load env f finalize < 0 then (Exit 1, tr2) else (Return (), tr2))
         else (Exit 1, tr1))"

text \<open>
  The \<^verbatim>\<open>do\<close> loop: the body runs on \<open>f\<close>, then \<^verbatim>\<open>++optind < argc\<close> decides whether it
  runs again, on the next of the remaining arguments.
\<close>

fun load_files ::
  "collaborators \<Rightarrow> bool \<Rightarrow> string \<Rightarrow> string list \<Rightarrow> event list
   \<Rightarrow> unit outcome \<times> event list" where
  "load_files env finalize f rest tr =
     (case load_file env finalize f tr of
        (Return u, tr') \<Rightarrow>
          (case rest of
             [] \<Rightarrow> (Return u, tr')
           | g # gs \<Rightarrow> load_files env finalize g gs tr')
      | (Exit c, tr') \<Rightarrow> (Exit c, tr')
      | (Undefined_behaviour, tr') \<Rightarrow> (Undefined_behaviour, tr'))"

declare load_files.simps [simp del]

text \<open>
  \<^verbatim>\<open>main\<close>, given \<^verbatim>\<open>argv\<close> as \<^verbatim>\<open>getopt_long\<close> leaves it, the answers of \<^verbatim>\<open>getopt_long\<close>
  and the final \<^verbatim>\<open>optind\<close>. The result is the exit status of the process, returned or
  passed to \<^verbatim>\<open>errx\<close>, with the trace of the run.
\<close>

definition main ::
  "collaborators \<Rightarrow> string list \<Rightarrow> (char \<times> string) list \<Rightarrow> nat \<Rightarrow> int outcome \<times> event list" where
  "main env argv getopt_answers optind =
     (case getopt_loop getopt_answers initial_options of
        None \<Rightarrow> (Return 1, [Print_usage])
      | Some opts \<Rightarrow>
          if optind + 2 > length argv then (Return 1, [Print_usage])
          else
            (let prog_mbn = argv ! optind
             in case load_files env (qdl_finalize_provisioning opts) (argv ! (optind + 1))
                       (drop (optind + 2) argv) [] of
                  (Return u, tr1) \<Rightarrow>
                    (case usb_open (usb env) qdl_uninitialised tr1 of
                       (Return (ret, qdl), tr2) \<Rightarrow>
                         if ret \<noteq> 0 then (Return 1, tr2)
                         else
                           (let tr3 = tr2 @ [Sahara_run qdl prog_mbn]
                            in if sahara_run env qdl prog_mbn < 0 then (Return 1, tr3)
                               else
                                 (let tr4 = tr3 @ [Firehose_run qdl (incdir opts) (storage opts)]
                                  in if firehose_run env qdl (incdir opts) (storage opts) < 0
                                       then (Return 1, tr4)
                                     else (Return 0, tr4)))
                     | (Exit c, tr2) \<Rightarrow> (Exit c, tr2)
                     | (Undefined_behaviour, tr2) \<Rightarrow> (Undefined_behaviour, tr2))
                | (Exit c, tr1) \<Rightarrow> (Exit c, tr1)
                | (Undefined_behaviour, tr1) \<Rightarrow> (Undefined_behaviour, tr1)))"

text \<open>
  What the specification says of one support file: the loader call its kind selects
  with the status the loader reports, whether the file is staged (a loadable kind and
  a loader that does not report failure), and the events its staging produces.
\<close>

definition loader_call :: "collaborators \<Rightarrow> bool \<Rightarrow> string \<Rightarrow> (event \<times> int) option" where
  "loader_call env finalize f =
     (case classify_spec (xmlReadFile env f) of
        Inr Patch \<Rightarrow> Some (Patch_load f, patch_load env f)
      | Inr Program \<Rightarrow> Some (Program_load f, program_load env f)
      | Inr StorageProvisioning \<Rightarrow> Some (Ufs_load f finalize, ufs_load env f finalize)
      | _ \<Rightarrow> None)"

definition staged :: "collaborators \<Rightarrow> bool \<Rightarrow> string \<Rightarrow> bool" where
  "staged env finalize f =
     (case loader_call env finalize f of None \<Rightarrow> False | Some (e, status) \<Rightarrow> 0 \<le> status)"

definition loader_events :: "collaborators \<Rightarrow> bool \<Rightarrow> string \<Rightarrow> event list" where
  "loader_events env finalize f =
     (case loader_call env finalize f of None \<Rightarrow> [] | Some (e, status) \<Rightarrow> [e])"

definition file_events :: "collaborators \<Rightarrow> bool \<Rightarrow> string \<Rightarrow> event list" where
  "file_events env finalize f = Xml_read_file f # loader_events env finalize f"

text \<open>The events that touch the USB device, directly or through a protocol engine.\<close>

fun usb_event :: "event \<Rightarrow> bool" where
  "usb_event (Xml_read_file f) = False"
| "usb_event Print_usage = False"
| "usb_event (Patch_load f) = False"
| "usb_event (Program_load f) = False"
| "usb_event (Ufs_load f b) = False"
| "usb_event e = True"

fun loader_event :: "event \<Rightarrow> bool" where
  "loader_event (Patch_load f) = True"
| "loader_event (Program_load f) = True"
| "loader_event (Ufs_load f b) = True"
| "loader_event e = False"

subsection \<open>Notions used to state the properties of the enumeration\<close>

text \<open>
  The device identity and the interface signature of the specification, and the two
  kinds of bulk endpoint.
\<close>

definition identity_ok :: "libusb_device_descriptor \<Rightarrow> bool" where
  "identity_ok desc = (idVendor desc = 0x05c6 \<and> idProduct desc = 0x9008)"

definition signature_ok :: "libusb_interface_descriptor \<Rightarrow> bool" where
  "signature_ok ifc =
     (bInterfaceClass ifc = 0xff \<and> bInterfaceSubClass ifc = 0xff
      \<and> (bInterfaceProtocol ifc = 0xff \<or> bInterfaceProtocol ifc = 0x10))"

definition bulk_in :: "libusb_endpoint_descriptor \<Rightarrow> bool" where
  "bulk_in e =
     ((bmAttributes e AND LIBUSB_TRANSFER_TYPE_MASK) = LIBUSB_TRANSFER_TYPE_BULK
      \<and> (bEndpointAddress e AND LIBUSB_ENDPOINT_IN) \<noteq> 0)"

definition bulk_out :: "libusb_endpoint_descriptor \<Rightarrow> bool" where
  "bulk_out e =
     ((bmAttributes e AND LIBUSB_TRANSFER_TYPE_MASK) = LIBUSB_TRANSFER_TYPE_BULK
      \<and> (bEndpointAddress e AND LIBUSB_ENDPOINT_IN) = 0)"

text \<open>
  \<open>records_last ifc q\<close>: for each direction in which interface \<open>ifc\<close> has a bulk
  endpoint, session \<open>q\<close> holds the address and the packet size of the last such endpoint
  in enumeration order.
\<close>

definition records_last :: "libusb_interface_descriptor \<Rightarrow> qdl_device \<Rightarrow> bool" where
  "records_last ifc q =
     ((filter bulk_in (endpoint ifc) = []
       \<or> (in_ep q = Some (uint (bEndpointAddress (last (filter bulk_in (endpoint ifc)))))
          \<and> in_maxpktsize q
              = Some (unat (wMaxPacketSize (last (filter bulk_in (endpoint ifc)))))))
      \<and> (filter bulk_out (endpoint ifc) = []
          \<or> (out_ep q = Some (uint (bEndpointAddress (last (filter bulk_out (endpoint ifc)))))
             \<and> out_maxpktsize q
                 = Some (unat (wMaxPacketSize (last (filter bulk_out (endpoint ifc))))))))"

text \<open>
  An interface descriptor is consistent when it and its endpoints carry the right
  descriptor types and it has the minimum length. An interface is skipped when it is
  consistent and fails the signature; a configuration is skipped when it is read
  without error, is consistent, and all its interfaces are skipped.
\<close>

definition consistent_interface :: "libusb_interface_descriptor \<Rightarrow> bool" where
  "consistent_interface ifc =
     (ifc_bDescriptorType ifc = LIBUSB_DT_INTERFACE
      \<and> LIBUSB_DT_INTERFACE_SIZE \<le> unat (ifc_bLength ifc)
      \<and> list_all (\<lambda>e. ep_bDescriptorType e = LIBUSB_DT_ENDPOINT) (endpoint ifc))"

definition skipped_interface :: "libusb_interface_descriptor \<Rightarrow> bool" where
  "skipped_interface ifc = (consistent_interface ifc \<and> \<not> signature_ok ifc)"

definition skipped_config :: "int \<times> libusb_config_descriptor \<Rightarrow> bool" where
  "skipped_config rc =
     (fst rc = 0 \<and> cfg_bDescriptorType (snd rc) = LIBUSB_DT_CONFIG
      \<and> list_all skipped_interface (interface (snd rc)))"

text \<open>
  A device is passed over when its descriptor is read without error and either its
  identity differs or it is consistent throughout and none of its interfaces passes the
  signature. \<open>inspect_events\<close> are the calls made on such a device.
\<close>

definition passed_over :: "libusb_device \<Rightarrow> bool" where
  "passed_over d =
     (fst (device_descriptor d) = 0
      \<and> (if identity_ok (snd (device_descriptor d)) then
            dev_bDescriptorType (snd (device_descriptor d)) = LIBUSB_DT_DEVICE
            \<and> unat (bNumConfigurations (snd (device_descriptor d))) \<le> length (config_descriptors d)
            \<and> list_all skipped_config
                 (take (unat (bNumConfigurations (snd (device_descriptor d))))
                    (config_descriptors d))
          else True))"

definition inspect_events :: "libusb_device \<Rightarrow> event list" where
  "inspect_events d =
     Libusb_get_device_descriptor d
     # (if identity_ok (snd (device_descriptor d)) then
          map (Libusb_get_config_descriptor d)
            [0 ..< unat (bNumConfigurations (snd (device_descriptor d)))]
        else [])"

text \<open>
  \<open>reaches d k\<close>: the scan of device \<open>d\<close> arrives at its configuration \<open>k\<close>, every
  configuration before it having been skipped. \<open>reaches_interface d k j\<close>: it arrives at
  interface \<open>j\<close> of that configuration, the interfaces before it having been skipped.
\<close>

definition reaches :: "libusb_device \<Rightarrow> nat \<Rightarrow> bool" where
  "reaches d k =
     (fst (device_descriptor d) = 0
      \<and> identity_ok (snd (device_descriptor d))
      \<and> dev_bDescriptorType (snd (device_descriptor d)) = LIBUSB_DT_DEVICE
      \<and> k < unat (bNumConfigurations (snd (device_descriptor d)))
      \<and> k < length (config_descriptors d)
      \<and> list_all skipped_config (take k (config_descriptors d))
      \<and> fst (config_descriptors d ! k) = 0)"

definition reaches_interface :: "libusb_device \<Rightarrow> nat \<Rightarrow> nat \<Rightarrow> bool" where
  "reaches_interface d k j =
     (reaches d k
      \<and> cfg_bDescriptorType (snd (config_descriptors d ! k)) = LIBUSB_DT_CONFIG
      \<and> j < length (interface (snd (config_descriptors d ! k)))
      \<and> list_all skipped_interface (take j (interface (snd (config_descriptors d ! k)))))"

text \<open>
  \<open>first_match d k j\<close>: interface \<open>j\<close> of configuration \<open>k\<close> is the first interface of
  \<open>d\<close>, in the order configuration then interface, that passes the filter.
\<close>

definition first_match :: "libusb_device \<Rightarrow> nat \<Rightarrow> nat \<Rightarrow> bool" where
  "first_match d k j =
     (reaches_interface d k j
      \<and> consistent_interface (interface (snd (config_descriptors d ! k)) ! j)
      \<and> signature_ok (interface (snd (config_descriptors d ! k)) ! j))"

text \<open>
  The three inconsistencies of a successfully read descriptor: a device descriptor of
  the wrong type, a configuration descriptor of the wrong type, an interface descriptor
  of the wrong type or below the minimum length.
\<close>

definition device_fault :: "libusb_device \<Rightarrow> bool" where
  "device_fault d =
     (fst (device_descriptor d) = 0
      \<and> identity_ok (snd (device_descriptor d))
      \<and> dev_bDescriptorType (snd (device_descriptor d)) \<noteq> LIBUSB_DT_DEVICE)"

definition config_fault :: "libusb_device \<Rightarrow> nat \<Rightarrow> bool" where
  "config_fault d k =
     (reaches d k
      \<and> cfg_bDescriptorType (snd (config_descriptors d ! k)) \<noteq> LIBUSB_DT_CONFIG)"

definition interface_fault :: "libusb_device \<Rightarrow> nat \<Rightarrow> nat \<Rightarrow> bool" where
  "interface_fault d k j =
     (reaches_interface d k j
      \<and> (ifc_bDescriptorType (interface (snd (config_descriptors d ! k)) ! j)
            \<noteq> LIBUSB_DT_INTERFACE
          \<or> unat (ifc_bLength (interface (snd (config_descriptors d ! k)) ! j))
              < LIBUSB_DT_INTERFACE_SIZE))"

text \<open>The calls made on a device whose scan ends in configuration \<open>k\<close>.\<close>

definition events_upto :: "libusb_device \<Rightarrow> nat \<Rightarrow> event list" where
  "events_upto d k =
     Libusb_get_device_descriptor d # map (Libusb_get_config_descriptor d) [0 ..< Suc k]"

text \<open>
  \<open>inconsistent_at d k j\<close>: the scan of \<open>d\<close> arrives at interface \<open>j\<close> of configuration
  \<open>k\<close>, and that interface or one of its endpoints is inconsistent. \<open>fault_config d\<close> is
  the index of the first configuration of \<open>d\<close> that is not skipped. A device is skipped
  when it is passed over or its scan meets an inconsistent descriptor before any
  interface that passes the filter; \<open>skip_events\<close> are the calls made on such a device.
\<close>

definition inconsistent_at :: "libusb_device \<Rightarrow> nat \<Rightarrow> nat \<Rightarrow> bool" where
  "inconsistent_at d k j =
     (reaches_interface d k j
      \<and> \<not> consistent_interface (interface (snd (config_descriptors d ! k)) ! j))"

definition fault_config :: "libusb_device \<Rightarrow> nat" where
  "fault_config d = length (takeWhile skipped_config (config_descriptors d))"

definition skipped_device :: "libusb_device \<Rightarrow> bool" where
  "skipped_device d =
     (passed_over d \<or> device_fault d \<or> config_fault d (fault_config d)
      \<or> list_ex (inconsistent_at d (fault_config d))
           [0 ..< length (interface (snd (config_descriptors d ! fault_config d)))])"

definition skip_events :: "libusb_device \<Rightarrow> event list" where
  "skip_events d =
     Libusb_get_device_descriptor d
     # (if identity_ok (snd (device_descriptor d))
           \<and> dev_bDescriptorType (snd (device_descriptor d)) = LIBUSB_DT_DEVICE
        then map (Libusb_get_config_descriptor d)
               [0 ..< min (unat (bNumConfigurations (snd (device_descriptor d))))
                          (Suc (fault_config d))]
        else [])"

subsection \<open>Notions used to state the properties of the writer\<close>

text \<open>
  The specification's chunking of a buffer into pieces of at most \<open>P\<close> bytes, and the
  bulk-OUT transfer that carries one chunk: the chunk itself, its length, no timeout.
\<close>

function chunks_of :: "nat \<Rightarrow> 'a list \<Rightarrow> 'a list list" where
  "chunks_of P xs = (if P = 0 \<or> xs = [] then [] else take P xs # chunks_of P (drop P xs))"
  by pat_completeness auto
termination
  by (relation "measure (\<lambda>(P, xs). length xs)") auto

declare chunks_of.simps [simp del]

definition chunk_event :: "libusb_device_handle \<Rightarrow> int \<Rightarrow> 8 word list \<Rightarrow> event" where
  "chunk_event h ep c = Libusb_bulk_transfer h ep c (int (length c)) 0"

text \<open>A populated session, for concrete runs.\<close>

definition session :: qdl_device where
  "session = \<lparr>handle = Some 7, in_ep = Some 129, out_ep = Some 1,
     in_maxpktsize = Some 512, out_maxpktsize = Some 2\<rparr>"

subsection \<open>Concrete documents, devices and collaborators\<close>

text \<open>
  Inputs for concrete runs: three documents; a download-mode device with one
  vendor-specific interface and a bulk endpoint pair; the same device with an interface
  that has no endpoints; a device of the right identity whose device descriptor has the
  wrong type; a device of another identity with the vendor-specific interface.
\<close>

definition patches_doc :: xmlDoc where
  "patches_doc = XmlNode XML_ELEMENT_NODE ''patches'' []"

definition program_doc :: xmlDoc where
  "program_doc =
     XmlNode XML_ELEMENT_NODE ''data''
       [XmlNode XML_TEXT_NODE ''text'' [], XmlNode XML_ELEMENT_NODE ''program'' []]"

definition widget_doc :: xmlDoc where
  "widget_doc = XmlNode XML_ELEMENT_NODE ''widget'' []"

definition ep_bulk_in :: libusb_endpoint_descriptor where
  "ep_bulk_in =
     \<lparr>ep_bDescriptorType = 0x05, bEndpointAddress = 0x81, bmAttributes = 0x02,
      wMaxPacketSize = 512\<rparr>"

definition ep_bulk_out :: libusb_endpoint_descriptor where
  "ep_bulk_out =
     \<lparr>ep_bDescriptorType = 0x05, bEndpointAddress = 0x01, bmAttributes = 0x02,
      wMaxPacketSize = 512\<rparr>"

definition vendor_interface :: "libusb_endpoint_descriptor list \<Rightarrow> libusb_interface_descriptor" where
  "vendor_interface eps =
     \<lparr>ifc_bLength = 9, ifc_bDescriptorType = 0x04, bInterfaceNumber = 0,
      bInterfaceClass = 0xff, bInterfaceSubClass = 0xff, bInterfaceProtocol = 0xff,
      endpoint = eps\<rparr>"

definition usb_device ::
  "16 word \<Rightarrow> 16 word \<Rightarrow> 8 word \<Rightarrow> libusb_endpoint_descriptor list \<Rightarrow> nat \<Rightarrow> libusb_device" where
  "usb_device vendor product dev_type eps h =
     \<lparr>device_descriptor =
        (0, \<lparr>dev_bDescriptorType = dev_type, idVendor = vendor, idProduct = product,
             bNumConfigurations = 1\<rparr>),
      config_descriptors =
        [(0, \<lparr>cfg_bDescriptorType = 0x02, interface = [vendor_interface eps]\<rparr>)],
      open_device = (0, h)\<rparr>"

definition download_device :: libusb_device where
  "download_device = usb_device 0x05c6 0x9008 0x01 [ep_bulk_in, ep_bulk_out] 7"

definition bare_device :: libusb_device where
  "bare_device = usb_device 0x05c6 0x9008 0x01 [] 8"

definition mistyped_device :: libusb_device where
  "mistyped_device = usb_device 0x05c6 0x9008 0x00 [ep_bulk_in, ep_bulk_out] 9"

definition foreign_device :: libusb_device where
  "foreign_device = usb_device 0x1d6b 0x0002 0x01 [ep_bulk_in, ep_bulk_out] 10"

definition truncated_device :: libusb_device where
  "truncated_device =
     download_device
       \<lparr>config_descriptors :=
          [(0, \<lparr>cfg_bDescriptorType = 0x02,
                interface = [(vendor_interface [ep_bulk_in, ep_bulk_out])\<lparr>ifc_bLength := 8\<rparr>]\<rparr>)]\<rparr>"

definition ep_interrupt_in :: libusb_endpoint_descriptor where
  "ep_interrupt_in =
     \<lparr>ep_bDescriptorType = 0x05, bEndpointAddress = 0x82, bmAttributes = 0x03,
      wMaxPacketSize = 16\<rparr>"

definition ep_bulk_in_second :: libusb_endpoint_descriptor where
  "ep_bulk_in_second =
     \<lparr>ep_bDescriptorType = 0x05, bEndpointAddress = 0x83, bmAttributes = 0x02,
      wMaxPacketSize = 64\<rparr>"

definition two_in_device :: libusb_device where
  "two_in_device =
     usb_device 0x05c6 0x9008 0x01
       [ep_bulk_in, ep_interrupt_in, ep_bulk_out, ep_bulk_in_second] 11"

text \<open>
  A download-mode device with two interfaces: a communications-data interface with a
  bulk endpoint pair, then the vendor-specific interface, number 1, without endpoints.
\<close>

definition carrying_device :: libusb_device where
  "carrying_device =
     bare_device
       \<lparr>config_descriptors :=
          [(0, \<lparr>cfg_bDescriptorType = 0x02,
                interface =
                  [(vendor_interface [ep_bulk_in, ep_bulk_out])\<lparr>bInterfaceClass := 0x0a\<rparr>,
                   (vendor_interface [])\<lparr>bInterfaceNumber := 1\<rparr>]\<rparr>)]\<rparr>"

text \<open>
  A communications-data interface with a bulk endpoint pair. A download-mode device
  whose first interface is that one with the length 8 and whose second interface is the
  vendor-specific one. A download-mode device with two configurations, the second of
  which holds the vendor-specific interface after a communications-data interface.
\<close>

definition data_interface :: libusb_interface_descriptor where
  "data_interface = (vendor_interface [ep_bulk_in, ep_bulk_out])\<lparr>bInterfaceClass := 0x0a\<rparr>"

definition late_match_device :: libusb_device where
  "late_match_device =
     \<lparr>device_descriptor =
        (0, \<lparr>dev_bDescriptorType = 0x01, idVendor = 0x05c6, idProduct = 0x9008,
             bNumConfigurations = 1\<rparr>),
      config_descriptors =
        [(0, \<lparr>cfg_bDescriptorType = 0x02,
              interface =
                [data_interface\<lparr>ifc_bLength := 8\<rparr>,
                 (vendor_interface [ep_bulk_in, ep_bulk_out])\<lparr>bInterfaceNumber := 1\<rparr>]\<rparr>)],
      open_device = (0, 12)\<rparr>"

definition second_config_device :: libusb_device where
  "second_config_device =
     \<lparr>device_descriptor =
        (0, \<lparr>dev_bDescriptorType = 0x01, idVendor = 0x05c6, idProduct = 0x9008,
             bNumConfigurations = 2\<rparr>),
      config_descriptors =
        [(0, \<lparr>cfg_bDescriptorType = 0x02, interface = [data_interface]\<rparr>),
         (0, \<lparr>cfg_bDescriptorType = 0x02,
              interface =
                [data_interface,
                 (vendor_interface [ep_bulk_in, ep_bulk_out])\<lparr>bInterfaceNumber := 1\<rparr>]\<rparr>)],
      open_device = (0, 13)\<rparr>"

definition host_with :: "libusb_device list \<Rightarrow> usb_host" where
  "host_with ds =
     \<lparr>libusb_init_ret = 0, libusb_get_device_list = (int (length ds), ds),
      libusb_claim_interface = (\<lambda>h i. 0)\<rparr>"

definition example_env :: collaborators where
  "example_env =
     \<lparr>xmlReadFile =
        (\<lambda>f. if f = ''a.xml'' then Some patches_doc
             else if f = ''b.xml'' then Some widget_doc
             else if f = ''c.xml'' then Some program_doc
             else None),
      patch_load = (\<lambda>f. 0),
      program_load = (\<lambda>f. 0),
      ufs_load = (\<lambda>f b. 0),
      usb = host_with [download_device],
      sahara_run = (\<lambda>q f. 0),
      firehose_run = (\<lambda>q i s. 0)\<rparr>"

section \<open>Properties\<close>

subsection \<open>File classification\<close>

lemma detect_children_find:
  "detect_children ns QDL_FILE_UNKNOWN =
     kind_code (case find (\<lambda>n. node_type n = XML_ELEMENT_NODE
                              \<and> (node_name n = ''program'' \<or> node_name n = ''ufs'')) ns of
                  None \<Rightarrow> Unknown
                | Some n \<Rightarrow> if node_name n = ''program'' then Program
                            else StorageProvisioning)"
  by (induction ns) (auto simp: xmlStrcmp_def kind_code_def)

lemma kind_code_nonneg: "0 \<le> kind_code k"
  by (cases k)
    (simp_all add: kind_code_def QDL_FILE_UNKNOWN_def QDL_FILE_PATCH_def
      QDL_FILE_PROGRAM_def QDL_FILE_UFS_def QDL_FILE_CONTENTS_def)

lemma detect_type_result_code: "detect_type doc = result_code (classify_spec doc)"
proof (cases doc)
  case None
  then show ?thesis
    by (simp add: detect_type_def classify_spec_def result_code_def)
next
  case (Some root)
  then show ?thesis
    by (simp add: detect_type_def classify_spec_def result_code_def
        xmlDocGetRootElement_def xmlStrcmp_def detect_children_find)
      (simp add: kind_code_def)
qed

text \<open>
  C4. \<^verbatim>\<open>detect_type\<close> returns the code of the classification the specification
  describes: the parse error (a negative value) exactly when libxml2 yields no document,
  otherwise the kind chosen by the root tag and, for a \<^verbatim>\<open>data\<close> root, by the first
  element child named \<^verbatim>\<open>program\<close> or \<^verbatim>\<open>ufs\<close>; every other document gives
  \<^verbatim>\<open>QDL_FILE_UNKNOWN\<close>, an ordinary non-negative return value.
\<close>

theorem detect_type_classifies:
  "detect_type doc = result_code (classify_spec doc)
   \<and> (detect_type doc < 0 \<longleftrightarrow> doc = None)
   \<and> (classify_spec doc = Inl ParseError \<longleftrightarrow> doc = None)"
proof -
  have eq: "detect_type doc = result_code (classify_spec doc)"
    by (rule detect_type_result_code)
  have neg: "detect_type doc < 0 \<longleftrightarrow> doc = None"
  proof (cases doc)
    case None
    then show ?thesis by (simp add: detect_type_def EINVAL_def)
  next
    case (Some root)
    obtain k where "classify_spec doc = Inr k"
      using Some by (simp add: classify_spec_def)
    then have "detect_type doc = kind_code k"
      using eq by (simp add: result_code_def)
    then show ?thesis
      using Some kind_code_nonneg [of k] by simp
  qed
  have err: "classify_spec doc = Inl ParseError \<longleftrightarrow> doc = None"
    by (cases doc) (simp_all add: classify_spec_def)
  from eq neg err show ?thesis by simp
qed

subsection \<open>The chunked writer\<close>

lemma int_of_size_t_small: "int n \<le> INT_MAX \<Longrightarrow> int_of_size_t n = int n"
  by (simp add: int_of_size_t_def INT_MAX_def)

lemma size_t_of_int_small: "0 \<le> i \<Longrightarrow> i \<le> INT_MAX \<Longrightarrow> size_t_of_int i = nat i"
  by (simp add: size_t_of_int_def INT_MAX_def)

lemma loop_step:
  assumes "handle qdl = Some h" "out_ep qdl = Some ep" "out_maxpktsize qdl = Some P"
    and "data \<noteq> []" "int (length data) \<le> INT_MAX"
    and "fst (bulk (tr @ [chunk_event h ep (take P data)])) = 0"
  shows "qdl_write_loop bulk qdl data (int (length data)) w tr =
         qdl_write_loop bulk qdl (drop P data) (int (length (drop P data)))
           (w + int (length (take P data))) (tr @ [chunk_event h ep (take P data)])"
proof -
  define xfer where "xfer = min P (length data)"
  have x: "(if P < size_t_of_int (int (length data)) then int_of_size_t P
            else int (length data)) = int xfer"
    using assms(5) by (auto simp: size_t_of_int_small int_of_size_t_small xfer_def)
  have tk: "take xfer data = take P data" "drop xfer data = drop P data"
    by (simp_all add: xfer_def min_def)
  have len: "int (length data) - int xfer = int (length (drop P data))"
    by (simp add: xfer_def)
  have lt: "length (take P data) = xfer"
    by (simp add: xfer_def min.commute)
  obtain r t where bt: "bulk (tr @ [Libusb_bulk_transfer h ep (take P data) (int xfer) 0]) = (r, t)"
    by fastforce
  have r0: "r = 0"
    using assms(6) bt by (simp only: chunk_event_def lt fst_conv)
  have pos: "0 < int (length data)"
    using assms(4) by simp
  show ?thesis
    by (subst qdl_write_loop.simps)
      (simp only: pos if_True assms(1-3) option.case x Let_def libusb_bulk_transfer_def
        nat_int tk bt prod.case r0 len lt chunk_event_def simp_thms if_False)
qed

lemma loop_chunks:
  assumes "handle qdl = Some h" "out_ep qdl = Some ep" "out_maxpktsize qdl = Some P" "0 < P"
    and ok: "\<forall>t. fst (bulk t) = 0"
  shows "int (length data) \<le> INT_MAX \<Longrightarrow>
     qdl_write_loop bulk qdl data (int (length data)) w tr =
       Some (Return (w + int (length data)), tr @ map (chunk_event h ep) (chunks_of P data))"
proof (induction "length data" arbitrary: data w tr rule: less_induct)
  case less
  show ?case
  proof (cases "data = []")
    case True
    then show ?thesis
      by (simp add: qdl_write_loop.simps chunks_of.simps)
  next
    case False
    have shorter: "length (drop P data) < length data"
      using False assms(4) by simp
    have small: "int (length (drop P data)) \<le> INT_MAX"
      using less.prems by simp
    have ch: "chunks_of P data = take P data # chunks_of P (drop P data)"
      using False assms(4) by (subst chunks_of.simps) simp
    have sum: "w + int (length (take P data)) + int (length (drop P data)) = w + int (length data)"
      by simp
    show ?thesis
      using loop_step [OF assms(1-3) False less.prems, of bulk tr w] ok
        less.hyps [OF shorter small, of "w + int (length (take P data))" "tr @ [chunk_event h ep (take P data)]"]
      by (simp only: ch sum list.map append_assoc append_Cons append_Nil)
  qed
qed


lemma chunks_of_lengths:
  "0 < P \<Longrightarrow> map length (chunks_of P xs) =
     replicate (length xs div P) P @ (if length xs mod P = 0 then [] else [length xs mod P])"
proof (induction P xs rule: chunks_of.induct)
  case (1 P xs)
  show ?case
  proof (cases "xs = []")
    case True
    then show ?thesis by (simp add: chunks_of.simps)
  next
    case False
    note ne = this
    have ch: "chunks_of P xs = take P xs # chunks_of P (drop P xs)"
      using ne 1(2) by (subst chunks_of.simps) simp
    have IH: "map length (chunks_of P (drop P xs)) =
        replicate (length (drop P xs) div P) P
        @ (if length (drop P xs) mod P = 0 then [] else [length (drop P xs) mod P])"
      using 1(1) ne 1(2) by simp
    show ?thesis
    proof (cases "P \<le> length xs")
      case True
      then have d: "length xs div P = Suc ((length xs - P) div P)"
        using 1(2) by (simp add: le_div_geq)
      have m: "length xs mod P = (length xs - P) mod P"
        using True by (simp add: le_mod_geq)
      show ?thesis
        using True by (simp add: ch IH d m min_absorb2)
    next
      case False
      then have "length xs < P" by simp
      then show ?thesis
        using ne by (simp add: ch chunks_of.simps [of P "[]"])
    qed
  qed
qed

lemma concat_chunks_of: "0 < P \<Longrightarrow> concat (chunks_of P xs) = xs"
proof (induction P xs rule: chunks_of.induct)
  case (1 P xs)
  show ?case
  proof (cases "xs = []")
    case True
    then show ?thesis by (simp add: chunks_of.simps)
  next
    case False
    then have "chunks_of P xs = take P xs # chunks_of P (drop P xs)"
      using 1(2) by (subst chunks_of.simps) simp
    then show ?thesis
      using 1 False by simp
  qed
qed

lemma loop_returns_sum:
  assumes run: "qdl_write_loop bulk qdl data sz w tr = Some y"
  shows "0 \<le> sz \<and> sz \<le> INT_MAX \<longrightarrow> (\<forall>n tr'. y = (Return n, tr') \<longrightarrow> n = w + sz)"
proof (rule qdl_write_loop.raw_induct
    [where P = "\<lambda>bulk qdl data sz w tr y.
       0 \<le> sz \<and> sz \<le> INT_MAX \<longrightarrow> (\<forall>n tr'. y = (Return n, tr') \<longrightarrow> n = w + sz)",
     OF _ run], goal_cases)
  case (1 loop bulk qdl data sz w tr y)
  show ?case
  proof (intro impI allI)
    fix n tr'
    assume b: "0 \<le> sz \<and> sz \<le> INT_MAX" and y: "y = (Return n, tr')"
    show "n = w + sz"
    proof (cases "0 < sz")
      case False
      then show ?thesis using 1(2) b y by simp
    next
      case True
      then obtain P where P: "out_maxpktsize qdl = Some P"
        using 1(2) y by (cases "out_maxpktsize qdl") auto
      define xfer where "xfer = (if P < size_t_of_int sz then int_of_size_t P else sz)"
      have xr: "0 \<le> xfer \<and> xfer \<le> sz"
        using True b by (auto simp: xfer_def size_t_of_int_small int_of_size_t_small INT_MAX_def)
      obtain res tr1 where bt: "libusb_bulk_transfer bulk (handle qdl) (out_ep qdl)
                        (take (nat xfer) data) xfer 0 tr = (res, tr1)"
        by fastforce
      from 1(2) True P bt y obtain ret transferred where
        res: "res = Some (ret, transferred)"
        by (cases res) (auto simp: xfer_def [symmetric] Let_def)
      from 1(2) True P bt y res have r0: "ret = 0"
        by (auto simp: xfer_def [symmetric] Let_def split: if_splits)
      from 1(2) True P bt y res r0 have
        "loop bulk qdl (drop (nat xfer) data) (sz - xfer) (w + xfer) tr1 = Some y"
        by (simp add: xfer_def [symmetric] Let_def)
      from 1(1) [OF this] xr b y have "n = w + xfer + (sz - xfer)"
        by simp
      then show ?thesis by simp
    qed
  qed
qed


lemma nth_chunk_length:
  assumes "0 < P" "Suc i < length (chunks_of P xs)"
  shows "length (chunks_of P xs ! i) = P"
proof -
  let ?ls = "map length (chunks_of P xs)"
  have len: "length ?ls = length xs div P + (if length xs mod P = 0 then 0 else 1)"
    by (simp add: chunks_of_lengths [OF assms(1)])
  have "i < length xs div P"
    using assms(2) len by (simp split: if_splits)
  then have "?ls ! i = P"
    by (simp add: chunks_of_lengths [OF assms(1)] nth_append)
  then show ?thesis
    using assms(2) by simp
qed

lemma last_chunk_length:
  assumes "0 < P" "chunks_of P xs \<noteq> []"
  shows "length (last (chunks_of P xs)) = (if length xs mod P = 0 then P else length xs mod P)"
proof -
  let ?ls = "map length (chunks_of P xs)"
  have ne: "?ls \<noteq> []" using assms(2) by simp
  have "last ?ls = (if length xs mod P = 0 then P else length xs mod P)"
  proof (cases "length xs mod P = 0")
    case True
    then have eq: "?ls = replicate (length xs div P) P"
      by (simp add: chunks_of_lengths [OF assms(1)])
    then have "length xs div P \<noteq> 0" using ne by auto
    then show ?thesis using True eq by simp
  next
    case False
    then show ?thesis by (simp add: chunks_of_lengths [OF assms(1)])
  qed
  then show ?thesis
    using assms(2) by (simp add: last_map)
qed

lemma chunks_nonempty: "[] \<notin> set (chunks_of P xs)"
proof (induction P xs rule: chunks_of.induct)
  case (1 P xs)
  show ?case
  proof (cases "P = 0 \<or> xs = []")
    case True
    then show ?thesis by (subst chunks_of.simps) simp
  next
    case False
    then show ?thesis using 1 by (subst chunks_of.simps) simp
  qed
qed

lemma qdl_write_accepted:
  assumes "handle qdl = Some h" and "out_ep qdl = Some ep" and "out_maxpktsize qdl = Some P"
    and "0 < P" and "length B = len" and "int len \<le> INT_MAX" and "\<forall>t. fst (bulk t) = 0"
  shows "qdl_write bulk qdl B len eot tr =
           Some (Return (int len),
                 tr @ map (chunk_event h ep) (chunks_of P B)
                    @ (if eot \<and> len mod P = 0 then [Libusb_bulk_transfer h ep [] 0 0] else []))"
proof -
  have small: "int (length B) \<le> INT_MAX"
    using assms(5,6) by simp
  have loop: "qdl_write_loop bulk qdl B (int_of_size_t len) 0 tr =
      Some (Return (int len), tr @ map (chunk_event h ep) (chunks_of P B))"
    using loop_chunks [OF assms(1-4) assms(7) small, of 0 tr] assms(5,6)
    by (simp add: int_of_size_t_small)
  have zlp: "libusb_bulk_transfer bulk (handle qdl) (out_ep qdl) [] 0 0 t =
      (Some (0, snd (bulk (t @ [Libusb_bulk_transfer h ep [] 0 0]))),
       t @ [Libusb_bulk_transfer h ep [] 0 0])" for t
    using assms(7) by (simp add: libusb_bulk_transfer_def assms(1,2) Let_def prod_eq_iff)
  show ?thesis
    using assms(4) by (simp add: qdl_write_def loop assms(3) zlp)
qed

text \<open>
  C1, as amended. For a populated session with packet size \<open>P > 0\<close>, a buffer \<open>B\<close> of
  \<open>len\<close> bytes with \<open>len \<le> INT_MAX\<close>, either value of \<open>eot\<close>, and a transport that accepts
  every transfer: \<^verbatim>\<open>qdl_write\<close> returns \<open>len\<close> after issuing one bulk-OUT transfer per
  chunk of \<open>chunks_of P B\<close>, in order, followed by one zero-length transfer exactly when
  \<open>eot\<close> is set and \<open>P\<close> divides \<open>len\<close> (also for \<open>len = 0\<close>). The chunks concatenate to
  \<open>B\<close>, so their lengths sum to \<open>len\<close>; none is empty; every chunk but the last has
  length \<open>P\<close>; the last has length \<open>len mod P\<close>, or \<open>P\<close> when that remainder is 0.
\<close>

theorem qdl_write_chunks:
  assumes "handle qdl = Some h" and "out_ep qdl = Some ep" and "out_maxpktsize qdl = Some P"
    and "0 < P" and "length B = len" and "int len \<le> INT_MAX" and "\<forall>t. fst (bulk t) = 0"
  shows "qdl_write bulk qdl B len eot tr =
           Some (Return (int len),
                 tr @ map (chunk_event h ep) (chunks_of P B)
                    @ (if eot \<and> len mod P = 0 then [Libusb_bulk_transfer h ep [] 0 0] else []))
         \<and> concat (chunks_of P B) = B
         \<and> sum_list (map length (chunks_of P B)) = len
         \<and> [] \<notin> set (chunks_of P B)
         \<and> (\<forall>i. Suc i < length (chunks_of P B) \<longrightarrow> length (chunks_of P B ! i) = P)
         \<and> (chunks_of P B \<noteq> [] \<longrightarrow>
              length (last (chunks_of P B)) = (if len mod P = 0 then P else len mod P))"
proof -
  have cc: "concat (chunks_of P B) = B"
    by (rule concat_chunks_of [OF assms(4)])
  have "sum_list (map length (chunks_of P B)) = length (concat (chunks_of P B))"
    by (simp add: length_concat)
  then have sm: "sum_list (map length (chunks_of P B)) = len"
    using cc assms(5) by simp
  show ?thesis
    using qdl_write_accepted [OF assms, of eot tr] cc sm chunks_nonempty [of P B]
      nth_chunk_length [OF assms(4), of _ B] last_chunk_length [OF assms(4), of B] assms(5)
    by simp
qed

text \<open>A run of four bytes with packet size 2 and \<open>eot\<close> set: two chunks and the empty transfer.\<close>

theorem qdl_write_chunks_witness:
  "handle session = Some 7 \<and> out_ep session = Some 1 \<and> out_maxpktsize session = Some 2
   \<and> (0::nat) < 2 \<and> length [1, 2, 3, 4 :: 8 word] = 4 \<and> int 4 \<le> INT_MAX
   \<and> (\<forall>t. fst ((\<lambda>_. (0, 1)) t :: int \<times> int) = 0)
   \<and> qdl_write (\<lambda>_. (0, 1)) session [1, 2, 3, 4] 4 True [] =
       Some (Return 4,
             [Libusb_bulk_transfer 7 1 [1, 2] 2 0, Libusb_bulk_transfer 7 1 [3, 4] 2 0,
              Libusb_bulk_transfer 7 1 [] 0 0])
   \<and> chunks_of 2 [1, 2, 3, 4 :: 8 word] = [1, 2] # [3, 4] # []"
proof -
  have c: "chunks_of 2 [1, 2, 3, 4 :: 8 word] = [1, 2] # [3, 4] # []"
    by (simp add: chunks_of.simps)
  have h: "handle session = Some 7" "out_ep session = Some 1" "out_maxpktsize session = Some 2"
    by (simp_all add: session_def)
  have s: "int 4 \<le> INT_MAX" by (simp add: INT_MAX_def)
  have ok: "\<forall>t. fst ((\<lambda>_. (0, 1)) t :: int \<times> int) = 0" by simp
  show ?thesis
    using qdl_write_chunks [OF h, of "[1, 2, 3, 4]" 4 "\<lambda>_. (0, 1)" True "[]"] h s
    by (simp add: c chunk_event_def INT_MAX_def)
qed

lemma int_of_size_t_wraps: "int_of_size_t 4294967296 = 0"
  by (simp add: int_of_size_t_def INT_MAX_def)

lemma loop_not_entered:
  "sz \<le> 0 \<Longrightarrow> qdl_write_loop bulk qdl data sz w tr = Some (Return w, tr)"
  by (subst qdl_write_loop.simps) simp

text \<open>
  C1 as stated fails for a buffer of \<open>2 ^ 32\<close> bytes: \<^verbatim>\<open>int size = len\<close> is 0, no data
  chunk is sent, and only the zero-length transfer goes out.
\<close>

theorem qdl_write_large_buffer_counterexample:
  "length (replicate 4294967296 (0 :: 8 word)) = 4294967296
   \<and> qdl_write (\<lambda>_. (0, 0)) session (replicate 4294967296 0) 4294967296 True [] =
       Some (Return 0, [Libusb_bulk_transfer 7 1 [] 0 0])"
  by (simp add: qdl_write_def int_of_size_t_wraps loop_not_entered session_def
      libusb_bulk_transfer_def)

subsection \<open>The byte count of \<^verbatim>\<open>qdl_write\<close>\<close>

text \<open>
  C10, as amended. Whenever \<^verbatim>\<open>qdl_write\<close> returns a byte count for a buffer of
  \<open>len \<le> INT_MAX\<close> bytes, the count is \<open>len\<close>, whatever the packet size is and whatever
  the transport stored in \<^verbatim>\<open>transferred\<close> for each chunk: the sum is taken over the
  requested sizes.
\<close>

theorem qdl_write_returns_len:
  assumes "qdl_write bulk qdl B len eot tr = Some (Return n, tr')" and "int len \<le> INT_MAX"
  shows "n = int len"
proof -
  obtain r t where loop: "qdl_write_loop bulk qdl B (int_of_size_t len) 0 tr = Some (r, t)"
    using assms(1) by (cases "qdl_write_loop bulk qdl B (int_of_size_t len) 0 tr")
      (auto simp: qdl_write_def)
  from assms(1) loop obtain w where r: "r = Return w" and n: "n = w"
    by (cases r) (auto simp: qdl_write_def split: option.splits if_splits prod.splits)
  have "w = 0 + int_of_size_t len"
    using loop_returns_sum [OF loop] assms(2) r
    by (simp add: int_of_size_t_small)
  then show ?thesis
    using n assms(2) by (simp add: int_of_size_t_small)
qed

text \<open>Five bytes over a transport that reports one byte transferred per chunk: the count is 5.\<close>

theorem qdl_write_returns_len_witness:
  "qdl_write (\<lambda>_. (0, 1)) session [1, 2, 3, 4, 5] 5 False [] =
     Some (Return 5,
       [Libusb_bulk_transfer 7 1 [1, 2] 2 0, Libusb_bulk_transfer 7 1 [3, 4] 2 0,
        Libusb_bulk_transfer 7 1 [5] 1 0])
   \<and> int 5 \<le> INT_MAX \<and> (5 :: int) = int 5"
proof -
  have run: "qdl_write (\<lambda>_. (0, 1)) session [1, 2, 3, 4, 5] 5 False [] =
     Some (Return 5,
       [Libusb_bulk_transfer 7 1 [1, 2] 2 0, Libusb_bulk_transfer 7 1 [3, 4] 2 0,
        Libusb_bulk_transfer 7 1 [5] 1 0])"
  proof -
    have c: "chunks_of 2 [1, 2, 3, 4, 5 :: 8 word] = [1, 2] # [3, 4] # [5] # []"
      by (simp add: chunks_of.simps)
    show ?thesis
      using qdl_write_accepted [of session 7 1 2 "[1, 2, 3, 4, 5]" 5 "\<lambda>_. (0, 1)" False "[]"]
      by (simp add: c chunk_event_def session_def INT_MAX_def)
  qed
  have s: "int 5 \<le> INT_MAX" by (simp add: INT_MAX_def)
  show ?thesis
    using qdl_write_returns_len [OF run s] run s by simp
qed

text \<open>
  C10 as stated fails for a buffer of \<open>2 ^ 32\<close> bytes: the call returns the count 0.
\<close>

theorem qdl_write_count_counterexample:
  "length (replicate 4294967296 (0 :: 8 word)) = 4294967296
   \<and> qdl_write (\<lambda>_. (0, 0)) session (replicate 4294967296 0) 4294967296 False [] =
       Some (Return 0, [])"
  by (simp add: qdl_write_def int_of_size_t_wraps loop_not_entered)

subsection \<open>\<^verbatim>\<open>qdl_read\<close>\<close>

text \<open>
  C6. On a populated session \<^verbatim>\<open>qdl_read\<close> issues exactly one bulk transfer, on the
  session's IN endpoint, with a length of at most \<open>len\<close> and the caller's timeout; it
  returns the transport's \<^verbatim>\<open>transferred\<close> when the return code is 0 and the return code
  itself otherwise, whatever that code is.
\<close>

theorem qdl_read_single_transfer:
  assumes "handle qdl = Some h" and "in_ep qdl = Some ep"
  shows "qdl_read bulk qdl len timeout tr =
           (let tr' = tr @ [Libusb_bulk_transfer h ep [] (int_of_size_t len) timeout]
            in (Return (if fst (bulk tr') = 0 then snd (bulk tr') else fst (bulk tr')), tr'))
         \<and> int_of_size_t len \<le> int len"
proof -
  define m where "m = len mod 4294967296"
  have ml: "m \<le> len"
    by (simp add: m_def)
  have "int_of_size_t len = (if int m \<le> INT_MAX then int m else int m - 4294967296)"
    by (simp add: int_of_size_t_def m_def Let_def)
  then have "int_of_size_t len \<le> int len"
    using ml by (simp add: INT_MAX_def)
  then show ?thesis
    by (simp add: qdl_read_def libusb_bulk_transfer_def assms Let_def split: prod.splits)
qed

text \<open>A read of three bytes, and a read that times out with the libusb code \<open>-7\<close>.\<close>

theorem qdl_read_single_transfer_witness:
  "handle session = Some 7 \<and> in_ep session = Some 129
   \<and> qdl_read (\<lambda>_. (0, 3)) session 16 1000 [] =
       (Return 3, [Libusb_bulk_transfer 7 129 [] 16 1000])
   \<and> qdl_read (\<lambda>_. (- 7, 3)) session 16 1000 [] =
       (Return (- 7), [Libusb_bulk_transfer 7 129 [] 16 1000])"
proof -
  have h: "handle session = Some 7" "in_ep session = Some 129"
    by (simp_all add: session_def)
  show ?thesis
    using qdl_read_single_transfer [OF h, of "\<lambda>_. (0, 3)" 16 1000 "[]"]
      qdl_read_single_transfer [OF h, of "\<lambda>_. (- 7, 3)" 16 1000 "[]"] h
    by (simp add: int_of_size_t_def INT_MAX_def)
qed

subsection \<open>Staging of the support files\<close>

lemma load_file_spec:
  "load_file env fin f tr =
     (if staged env fin f then Return () else Exit 1, tr @ file_events env fin f)"
proof (cases "classify_spec (xmlReadFile env f)")
  case (Inl e)
  then show ?thesis
    by (cases e)
      (simp add: load_file_def detect_type_result_code result_code_def EINVAL_def
        staged_def file_events_def loader_events_def loader_call_def)
next
  case (Inr k)
  then show ?thesis
    by (cases k)
      (simp_all add: load_file_def detect_type_result_code result_code_def kind_code_def
        QDL_FILE_UNKNOWN_def QDL_FILE_PATCH_def QDL_FILE_PROGRAM_def QDL_FILE_UFS_def
        QDL_FILE_CONTENTS_def staged_def file_events_def loader_events_def loader_call_def
        Let_def)
qed

lemma load_files_all_staged:
  "list_all (staged env fin) (f # rest) \<Longrightarrow>
     load_files env fin f rest tr =
       (Return (), tr @ concat (map (file_events env fin) (f # rest)))"
proof (induction rest arbitrary: f tr)
  case Nil
  then show ?case by (subst load_files.simps) (simp add: load_file_spec)
next
  case (Cons g gs)
  then show ?case by (subst load_files.simps) (simp add: load_file_spec)
qed

lemma load_files_first_failure:
  "list_all (staged env fin) pre \<Longrightarrow> \<not> staged env fin bad \<Longrightarrow> pre @ bad # post = f # rest \<Longrightarrow>
     load_files env fin f rest tr =
       (Exit 1, tr @ concat (map (file_events env fin) pre) @ file_events env fin bad)"
proof (induction pre arbitrary: f rest tr)
  case Nil
  then show ?case by (subst load_files.simps) (simp add: load_file_spec)
next
  case (Cons p ps)
  from Cons.prems(3) have f: "f = p" and rest: "rest = ps @ bad # post"
    by simp_all
  obtain g gs where gs: "ps @ bad # post = g # gs"
    by (cases "ps @ bad # post") simp_all
  have "load_files env fin g gs (tr @ file_events env fin p) =
       (Exit 1, (tr @ file_events env fin p) @ concat (map (file_events env fin) ps)
          @ file_events env fin bad)"
    using Cons.IH [OF _ Cons.prems(2) gs] Cons.prems(1) by simp
  then show ?case
    using Cons.prems(1) by (subst load_files.simps) (simp add: f rest gs load_file_spec)
qed

lemma filter_loader_file_events:
  "filter loader_event (file_events env fin f) = loader_events env fin f"
  by (cases "classify_spec (xmlReadFile env f)" rule: sum.exhaust [case_names Inl Inr])
    (auto simp: file_events_def loader_events_def loader_call_def split: FileKind.splits)

lemma no_usb_file_events: "\<not> list_ex usb_event (file_events env fin f)"
  by (auto simp: file_events_def loader_events_def loader_call_def
      split: FileKind.splits sum.splits)


lemma scan_interfaces_usb_events:
  "\<exists>ev. snd (scan_interfaces d ifs s q i tr) = tr @ ev \<and> list_all usb_event ev"
proof (induction ifs arbitrary: s)
  case Nil
  then show ?case by simp
next
  case (Cons ifc rest)
  show ?case
  proof (cases "scan_endpoints (endpoint ifc) s")
    case None
    then show ?thesis by simp
  next
    case (Some s')
    then show ?thesis
      using Cons.IH [of s'] by (simp add: Let_def split: prod.splits)
  qed
qed

lemma scan_configs_usb_events:
  "\<exists>ev. snd (scan_configs d i n s q intf tr) = tr @ ev \<and> list_all usb_event ev"
proof (induction n arbitrary: i s tr)
  case 0
  then show ?case by simp
next
  case (Suc n)
  obtain ret config where g: "libusb_get_config_descriptor d i = (ret, config)"
    by fastforce
  obtain r tr2 where si: "scan_interfaces d (interface config) s q intf
      (tr @ [Libusb_get_config_descriptor d i]) = (r, tr2)"
    by fastforce
  obtain ev where ev: "tr2 = (tr @ [Libusb_get_config_descriptor d i]) @ ev"
    and u: "list_all usb_event ev"
    using scan_interfaces_usb_events [of d "interface config" s q intf
        "tr @ [Libusb_get_config_descriptor d i]"] si by auto
  show ?case
  proof (cases r)
    case (Inl a)
    then show ?thesis
      using g si ev u by (simp add: Let_def)
  next
    case (Inr s')
    obtain ev' where "snd (scan_configs d (Suc i) n s' q intf tr2) = tr2 @ ev'"
      and "list_all usb_event ev'"
      using Suc.IH by blast
    then show ?thesis
      using g si ev u Inr by (simp add: Let_def)
  qed
qed

lemma parse_usb_desc_usb_events:
  "\<exists>ev. snd (parse_usb_desc d q i tr) = tr @ ev \<and> list_all usb_event ev"
proof -
  obtain ret desc where dd: "device_descriptor d = (ret, desc)"
    by fastforce
  obtain ev where "snd (scan_configs d 0 (unat (bNumConfigurations desc)) locals_uninitialised
      q i (tr @ [Libusb_get_device_descriptor d])) = (tr @ [Libusb_get_device_descriptor d]) @ ev"
    and "list_all usb_event ev"
    using scan_configs_usb_events by blast
  then show ?thesis
    by (simp add: parse_usb_desc_def dd Let_def)
qed

lemma usb_open_loop_usb_events:
  "\<exists>ev. snd (usb_open_loop ds q i tr) = tr @ ev \<and> list_all usb_event ev"
proof (induction ds arbitrary: q i tr)
  case Nil
  then show ?case by simp
next
  case (Cons d ds)
  obtain r tr' where p: "parse_usb_desc d q i tr = (r, tr')"
    by fastforce
  obtain ev where ev: "tr' = tr @ ev" and u: "list_all usb_event ev"
    using parse_usb_desc_usb_events [of d q i tr] p by auto
  show ?case
  proof (cases r)
    case (Return x)
    obtain ret q' i' where x: "x = (ret, q', i')"
      by (cases x) auto
    obtain ev' where "snd (usb_open_loop ds q' i' tr') = tr' @ ev'" and "list_all usb_event ev'"
      using Cons.IH by blast
    then show ?thesis
      using p ev u Return x by simp
  next
    case (Exit c)
    then show ?thesis using p ev u by simp
  next
    case Undefined_behaviour
    then show ?thesis using p ev u by simp
  qed
qed

lemma usb_open_starts:
  "\<exists>out ev. usb_open host q tr = (out, tr @ Libusb_init # ev) \<and> list_all usb_event ev"
proof -
  obtain usb_size devs where l: "libusb_get_device_list host = (usb_size, devs)"
    by fastforce
  obtain r tr3 where lp: "usb_open_loop (take (nat usb_size) devs) q (- 1)
      ((tr @ [Libusb_init]) @ [Libusb_get_device_list]) = (r, tr3)"
    by fastforce
  obtain ev where ev: "tr3 = ((tr @ [Libusb_init]) @ [Libusb_get_device_list]) @ ev"
    and u: "list_all usb_event ev"
    using usb_open_loop_usb_events [of "take (nat usb_size) devs" q "- 1"
        "(tr @ [Libusb_init]) @ [Libusb_get_device_list]"] lp by auto
  show ?thesis
    using l lp ev u
    by (auto simp: usb_open_def Let_def split: outcome.splits option.splits prod.splits)
qed

lemma main_after_staging:
  assumes "getopt_loop answers initial_options = Some opts" and "optind + 2 \<le> length argv"
    and "load_files env (qdl_finalize_provisioning opts) (argv ! (optind + 1))
           (drop (optind + 2) argv) [] = (Return (), tr1)"
  shows "\<exists>out ev. main env argv answers optind = (out, tr1 @ Libusb_init # ev)
           \<and> list_all usb_event ev"
proof -
  obtain r ev where u: "usb_open (usb env) qdl_uninitialised tr1 = (r, tr1 @ Libusb_init # ev)"
    and e: "list_all usb_event ev"
    using usb_open_starts by blast
  show ?thesis
    using assms u e
    by (auto simp: main_def Let_def split: outcome.splits prod.splits)
qed

lemma support_files:
  "optind + 2 \<le> length argv \<Longrightarrow>
     drop (Suc optind) argv = argv ! (optind + 1) # drop (optind + 2) argv"
  by (simp add: Cons_nth_drop_Suc)

text \<open>
  C5. For a run that passes argument validation, with the support files
  \<open>drop (Suc optind) argv\<close>: when the support files split into staged files \<open>pre\<close>, a
  file \<open>bad\<close> that is not staged (it fails to parse, is of an unknown or unsupported
  kind, or its loader reports failure) and the files \<open>post\<close>, the run exits with status
  1 and its trace is the staging of \<open>pre\<close> in argument order followed by the events of
  \<open>bad\<close>: the loader calls in it are those of \<open>pre\<close>, one each, and possibly that of
  \<open>bad\<close>, none of \<open>post\<close>, and no event touches the USB device. When all support files
  are staged, the trace is their staging in argument order, then \<^verbatim>\<open>libusb_init\<close>, then
  only events that touch the USB device.
\<close>

theorem staging_precedes_usb:
  assumes "getopt_loop answers initial_options = Some opts" and "optind + 2 \<le> length argv"
  shows "(\<forall>pre bad post.
            drop (Suc optind) argv = pre @ bad # post
            \<and> list_all (staged env (qdl_finalize_provisioning opts)) pre
            \<and> \<not> staged env (qdl_finalize_provisioning opts) bad
            \<longrightarrow> (\<exists>tr. main env argv answers optind = (Exit 1, tr)
                  \<and> tr = concat (map (file_events env (qdl_finalize_provisioning opts)) pre)
                         @ file_events env (qdl_finalize_provisioning opts) bad
                  \<and> filter loader_event tr
                       = concat (map (loader_events env (qdl_finalize_provisioning opts)) pre)
                         @ loader_events env (qdl_finalize_provisioning opts) bad
                  \<and> \<not> list_ex usb_event tr))
       \<and> (list_all (staged env (qdl_finalize_provisioning opts)) (drop (Suc optind) argv)
            \<longrightarrow> (\<exists>out ev. main env argv answers optind =
                   (out, concat (map (file_events env (qdl_finalize_provisioning opts))
                                  (drop (Suc optind) argv)) @ Libusb_init # ev)
                  \<and> list_all usb_event ev))"
proof (intro conjI allI impI)
  fix pre bad post
  let ?fin = "qdl_finalize_provisioning opts"
  assume a: "drop (Suc optind) argv = pre @ bad # post
            \<and> list_all (staged env ?fin) pre \<and> \<not> staged env ?fin bad"
  let ?tr = "concat (map (file_events env ?fin) pre) @ file_events env ?fin bad"
  have split: "pre @ bad # post = argv ! (optind + 1) # drop (optind + 2) argv"
    using a support_files [OF assms(2)] by simp
  have lf: "load_files env ?fin (argv ! (optind + 1)) (drop (optind + 2) argv) [] = (Exit 1, ?tr)"
    using load_files_first_failure [of env ?fin pre bad post _ _ "[]"] a split by simp
  have m: "main env argv answers optind = (Exit 1, ?tr)"
    using assms lf by (simp add: main_def Let_def)
  have fl: "filter loader_event ?tr =
      concat (map (loader_events env ?fin) pre) @ loader_events env ?fin bad"
    by (simp add: filter_concat comp_def filter_loader_file_events)
  have nu: "\<not> list_ex usb_event ?tr"
    using no_usb_file_events [of env ?fin] by (auto simp: list_ex_iff)
  show "\<exists>tr. main env argv answers optind = (Exit 1, tr) \<and> tr = ?tr
        \<and> filter loader_event tr =
            concat (map (loader_events env ?fin) pre) @ loader_events env ?fin bad
        \<and> \<not> list_ex usb_event tr"
    using m fl nu by blast
next
  let ?fin = "qdl_finalize_provisioning opts"
  assume a: "list_all (staged env ?fin) (drop (Suc optind) argv)"
  have lf: "load_files env ?fin (argv ! (optind + 1)) (drop (optind + 2) argv) [] =
      (Return (), concat (map (file_events env ?fin) (drop (Suc optind) argv)))"
    using load_files_all_staged [of env ?fin "argv ! (optind + 1)" "drop (optind + 2) argv" "[]"]
      a support_files [OF assms(2)] by simp
  show "\<exists>out ev. main env argv answers optind =
      (out, concat (map (file_events env ?fin) (drop (Suc optind) argv)) @ Libusb_init # ev)
      \<and> list_all usb_event ev"
    using main_after_staging [OF assms lf] .
qed

lemma load_files_extends: "\<exists>ev. snd (load_files env fin f rest tr) = tr @ ev"
proof (induction rest arbitrary: f tr)
  case Nil
  then show ?case by (subst load_files.simps) (simp add: load_file_spec)
next
  case (Cons g gs)
  obtain ev where "snd (load_files env fin g gs (tr @ file_events env fin f)) =
      (tr @ file_events env fin f) @ ev"
    using Cons.IH by blast
  then show ?case
    by (subst load_files.simps) (simp add: load_file_spec)
qed

lemma load_files_starts: "\<exists>r ev. load_files env fin f rest tr = (r, tr @ Xml_read_file f # ev)"
proof (cases rest)
  case Nil
  then show ?thesis
    by (subst load_files.simps) (simp add: load_file_spec file_events_def)
next
  case (Cons g gs)
  obtain ev where "snd (load_files env fin g gs (tr @ file_events env fin f)) =
      (tr @ file_events env fin f) @ ev"
    using load_files_extends by blast
  then show ?thesis
    using Cons
    by (subst load_files.simps) (auto simp: load_file_spec file_events_def prod_eq_iff)
qed

lemma main_extends:
  assumes "getopt_loop answers initial_options = Some opts" and "optind + 2 \<le> length argv"
    and "load_files env (qdl_finalize_provisioning opts) (argv ! (optind + 1))
           (drop (optind + 2) argv) [] = (r, tr1)"
  shows "\<exists>out ev. main env argv answers optind = (out, tr1 @ ev)"
proof -
  obtain u ev where u: "usb_open (usb env) qdl_uninitialised tr1 = (u, tr1 @ Libusb_init # ev)"
    using usb_open_starts by blast
  show ?thesis
    using assms u
    by (auto simp: main_def Let_def split: outcome.splits prod.splits)
qed

text \<open>
  Three support files of which the second is of an unknown kind: the first is loaded
  once, the third is never looked at, and the run exits before \<^verbatim>\<open>libusb_init\<close>. With the
  first file alone the staging is followed by \<^verbatim>\<open>libusb_init\<close>.
\<close>

theorem staging_precedes_usb_witness:
  "getopt_loop [] initial_options = Some initial_options
   \<and> 1 + 2 \<le> length [''qdl'', ''prog.mbn'', ''a.xml'', ''b.xml'', ''c.xml'']
   \<and> main example_env [''qdl'', ''prog.mbn'', ''a.xml'', ''b.xml'', ''c.xml''] [] 1 =
       (Exit 1, [Xml_read_file ''a.xml'', Patch_load ''a.xml'', Xml_read_file ''b.xml''])
   \<and> (\<exists>out ev. main example_env [''qdl'', ''prog.mbn'', ''a.xml''] [] 1 =
         (out, [Xml_read_file ''a.xml'', Patch_load ''a.xml''] @ Libusb_init # ev)
         \<and> list_all usb_event ev)"
proof -
  have o: "getopt_loop [] initial_options = Some initial_options"
    by simp
  have a: "staged example_env False ''a.xml''" and b: "\<not> staged example_env False ''b.xml''"
    by (simp_all add: staged_def loader_call_def classify_spec_def example_env_def
        patches_doc_def widget_doc_def)
  have fa: "file_events example_env False ''a.xml'' =
      [Xml_read_file ''a.xml'', Patch_load ''a.xml'']"
    and fb: "file_events example_env False ''b.xml'' = [Xml_read_file ''b.xml'']"
    by (simp_all add: file_events_def loader_events_def loader_call_def classify_spec_def
        example_env_def patches_doc_def widget_doc_def)
  have fin: "qdl_finalize_provisioning initial_options = False"
    by (simp add: initial_options_def)
  have l3: "1 + 2 \<le> length [''qdl'', ''prog.mbn'', ''a.xml'', ''b.xml'', ''c.xml'']"
    and l1: "1 + 2 \<le> length [''qdl'', ''prog.mbn'', ''a.xml'']"
    by simp_all
  have first: "main example_env [''qdl'', ''prog.mbn'', ''a.xml'', ''b.xml'', ''c.xml''] [] 1 =
       (Exit 1, [Xml_read_file ''a.xml'', Patch_load ''a.xml'', Xml_read_file ''b.xml''])"
    using staging_precedes_usb [OF o l3, of example_env, THEN conjunct1, rule_format,
        of "[''a.xml'']" "''b.xml''" "[''c.xml'']"]
    by (simp add: fin a b fa fb)
  have second: "\<exists>out ev. main example_env [''qdl'', ''prog.mbn'', ''a.xml''] [] 1 =
         (out, [Xml_read_file ''a.xml'', Patch_load ''a.xml''] @ Libusb_init # ev)
         \<and> list_all usb_event ev"
    using staging_precedes_usb [OF o l1, of example_env, THEN conjunct2]
    by (simp add: fin a fa)
  show ?thesis
    using o first second by simp
qed

subsection \<open>Argument validation\<close>

text \<open>
  C9, as amended. With fewer than two positional arguments, so also with the
  programmer image alone, \<^verbatim>\<open>main\<close> prints the usage text and returns 1, and that is the
  whole run. With two or more and recognised options, validation passes: the run goes
  on to read the first support file.
\<close>

theorem usage_error:
  "(optind + 2 > length argv \<longrightarrow> main env argv answers optind = (Return 1, [Print_usage]))
   \<and> (optind + 2 \<le> length argv \<longrightarrow> getopt_loop answers initial_options \<noteq> None \<longrightarrow>
        (\<exists>out ev. main env argv answers optind = (out, Xml_read_file (argv ! (optind + 1)) # ev)))"
proof (intro conjI impI)
  assume "optind + 2 > length argv"
  then show "main env argv answers optind = (Return 1, [Print_usage])"
    by (simp add: main_def split: option.splits)
next
  assume a: "optind + 2 \<le> length argv" and b: "getopt_loop answers initial_options \<noteq> None"
  then obtain opts where o: "getopt_loop answers initial_options = Some opts"
    by auto
  let ?fin = "qdl_finalize_provisioning opts"
  let ?f = "argv ! (optind + 1)"
  obtain r ev where lf: "load_files env ?fin ?f (drop (optind + 2) argv) [] =
      (r, [] @ Xml_read_file ?f # ev)"
    using load_files_starts by blast
  obtain out ev' where "main env argv answers optind = (out, ([] @ Xml_read_file ?f # ev) @ ev')"
    using main_extends [OF o a lf] by blast
  then show "\<exists>out ev. main env argv answers optind = (out, Xml_read_file ?f # ev)"
    by simp
qed

text \<open>
  No positional argument at all is a usage error; the programmer image with one support
  file is not.
\<close>

theorem usage_error_witness:
  "main example_env [''qdl''] [] 1 = (Return 1, [Print_usage])
   \<and> (\<exists>out ev. main example_env [''qdl'', ''prog.mbn'', ''a.xml''] [] 1 =
         (out, Xml_read_file ''a.xml'' # ev))"
  using usage_error [where optind = 1 and argv = "[''qdl'']" and env = example_env
      and answers = "[]"]
    usage_error [where optind = 1 and argv = "[''qdl'', ''prog.mbn'', ''a.xml'']"
      and env = example_env and answers = "[]"]
  by simp

text \<open>
  C9 as stated fails: the programmer image alone, with no support file, is a usage
  error.
\<close>

theorem programmer_image_alone_counterexample:
  "main example_env [''qdl'', ''prog.mbn''] [] 1 = (Return 1, [Print_usage])"
  by (simp add: main_def)

subsection \<open>The scan of a device\<close>

lemma scan_endpoints_typed:
  "list_all (\<lambda>e. ep_bDescriptorType e = LIBUSB_DT_ENDPOINT) es \<Longrightarrow>
     \<exists>s'. scan_endpoints es s = Some s'"
  by (induction es arbitrary: s) auto

lemma scan_endpoints_last:
  "scan_endpoints es s = Some s' \<Longrightarrow>
     l_in s' = (if filter bulk_in es = [] then l_in s
                else Some (uint (bEndpointAddress (last (filter bulk_in es)))))
     \<and> l_in_size s' = (if filter bulk_in es = [] then l_in_size s
                else Some (unat (wMaxPacketSize (last (filter bulk_in es)))))
     \<and> l_out s' = (if filter bulk_out es = [] then l_out s
                else Some (uint (bEndpointAddress (last (filter bulk_out es)))))
     \<and> l_out_size s' = (if filter bulk_out es = [] then l_out_size s
                else Some (unat (wMaxPacketSize (last (filter bulk_out es)))))"
proof (induction es arbitrary: s)
  case Nil
  then show ?case by simp
next
  case (Cons e es)
  show ?case
  proof (cases "bulk_in e")
    case True
    then have nb: "\<not> bulk_out e"
      by (simp add: bulk_in_def bulk_out_def)
    from Cons.prems True have
      "scan_endpoints es (s\<lparr>l_in := Some (uint (bEndpointAddress e)),
                  l_in_size := Some (unat (wMaxPacketSize e))\<rparr>) = Some s'"
      by (simp add: bulk_in_def split: if_splits)
    from Cons.IH [OF this] True nb show ?thesis
      by simp
  next
    case False
    note nin = this
    show ?thesis
    proof (cases "bulk_out e")
      case True
      from Cons.prems True have
        "scan_endpoints es (s\<lparr>l_out := Some (uint (bEndpointAddress e)),
                  l_out_size := Some (unat (wMaxPacketSize e))\<rparr>) = Some s'"
        by (simp add: bulk_out_def split: if_splits)
      from Cons.IH [OF this] True nin show ?thesis
        by simp
    next
      case False
      from Cons.prems False nin have "scan_endpoints es s = Some s'"
        by (auto simp: bulk_in_def bulk_out_def split: if_splits)
      from Cons.IH [OF this] False nin show ?thesis
        by simp
    qed
  qed
qed

lemma scan_interfaces_skips:
  "list_all skipped_interface ipre \<Longrightarrow>
     \<exists>s'. scan_interfaces d (ipre @ rest) s q i tr = scan_interfaces d rest s' q i tr"
proof (induction ipre arbitrary: s)
  case Nil
  then show ?case by auto
next
  case (Cons ifc ipre)
  from Cons.prems have sk: "skipped_interface ifc" and rest: "list_all skipped_interface ipre"
    by simp_all
  from sk obtain s1 where s1: "scan_endpoints (endpoint ifc) s = Some s1"
    using scan_endpoints_typed [of "endpoint ifc" s]
    by (auto simp: skipped_interface_def consistent_interface_def)
  obtain s' where "scan_interfaces d (ipre @ rest) s1 q i tr = scan_interfaces d rest s' q i tr"
    using Cons.IH [OF rest] by blast
  then show ?case
    using sk s1
    by (auto simp: skipped_interface_def consistent_interface_def signature_ok_def)
qed

lemma scan_interfaces_all_skipped:
  assumes "list_all skipped_interface ifs"
  shows "\<exists>s'. scan_interfaces d ifs s q i tr = (Inr s', tr)"
  using scan_interfaces_skips [OF assms, of d "[]" s q i tr] by simp

lemma scan_interfaces_selects:
  assumes "consistent_interface ifc" and "signature_ok ifc" and "open_device d = (0, h)"
  shows "\<exists>q'. scan_interfaces d (ifc # rest) s q i tr =
           (Inl (Return (0, q', uint (bInterfaceNumber ifc))), tr @ [Libusb_open d])
         \<and> handle q' = Some h \<and> records_last ifc q'"
proof -
  obtain s1 where s1: "scan_endpoints (endpoint ifc) s = Some s1"
    using assms(1) scan_endpoints_typed [of "endpoint ifc" s]
    by (auto simp: consistent_interface_def)
  let ?q = "\<lparr>handle = Some h, in_ep = l_in s1, out_ep = l_out s1,
             in_maxpktsize = l_in_size s1, out_maxpktsize = l_out_size s1\<rparr>"
  have "scan_interfaces d (ifc # rest) s q i tr =
           (Inl (Return (0, ?q, uint (bInterfaceNumber ifc))), tr @ [Libusb_open d])"
    using assms s1 by (auto simp: consistent_interface_def signature_ok_def)
  moreover have "records_last ifc ?q"
    using scan_endpoints_last [OF s1] by (simp add: records_last_def)
  ultimately show ?thesis
    by (intro exI [of _ ?q]) simp
qed

lemma scan_interfaces_fault:
  assumes "ifc_bDescriptorType ifc \<noteq> LIBUSB_DT_INTERFACE
           \<or> unat (ifc_bLength ifc) < LIBUSB_DT_INTERFACE_SIZE"
  shows "scan_interfaces d (ifc # rest) s q i tr = (Inl (Return (- EINVAL, q, i)), tr)"
  using assms by auto

lemma scan_interfaces_found:
  "scan_interfaces d ifs s q i tr = (Inl (Return (0, q', i')), tr') \<Longrightarrow>
     \<exists>ifc s0 s1. ifc \<in> set ifs \<and> signature_ok ifc
       \<and> scan_endpoints (endpoint ifc) s0 = Some s1
       \<and> in_ep q' = l_in s1 \<and> in_maxpktsize q' = l_in_size s1
       \<and> out_ep q' = l_out s1 \<and> out_maxpktsize q' = l_out_size s1
       \<and> i' = uint (bInterfaceNumber ifc)
       \<and> handle q' = Some (snd (open_device d)) \<and> fst (open_device d) = 0"
proof (induction ifs arbitrary: s)
  case Nil
  then show ?case by simp
next
  case (Cons ifc rest)
  from Cons.prems obtain s1 where s1: "scan_endpoints (endpoint ifc) s = Some s1"
    by (cases "scan_endpoints (endpoint ifc) s") (auto simp: EINVAL_def split: if_splits)
  show ?case
  proof (cases "signature_ok ifc")
    case False
    with Cons.prems s1 have "scan_interfaces d rest s1 q i tr = (Inl (Return (0, q', i')), tr')"
      by (auto simp: signature_ok_def EINVAL_def split: if_splits)
    from Cons.IH [OF this] show ?thesis
      by auto
  next
    case True
    with Cons.prems s1 have
      "q' = \<lparr>handle = Some (snd (open_device d)), in_ep = l_in s1, out_ep = l_out s1,
             in_maxpktsize = l_in_size s1, out_maxpktsize = l_out_size s1\<rparr>
       \<and> i' = uint (bInterfaceNumber ifc) \<and> fst (open_device d) = 0"
      by (auto simp: signature_ok_def EINVAL_def Let_def split: if_splits prod.splits)
    with True s1 show ?thesis
      by (intro exI [of _ ifc] exI [of _ s] exI [of _ s1]) simp
  qed
qed

lemma get_config_in_range:
  "k < length (config_descriptors d) \<Longrightarrow>
     libusb_get_config_descriptor d k = config_descriptors d ! k"
  by (simp add: libusb_get_config_descriptor_def)

lemma scan_configs_skips:
  assumes "k \<le> length (config_descriptors d)"
    and "list_all skipped_config (take k (config_descriptors d))"
  shows "j \<le> k \<Longrightarrow>
     \<exists>s'. scan_configs d j (n + (k - j)) s q i tr =
           scan_configs d k n s' q i (tr @ map (Libusb_get_config_descriptor d) [j ..< k])"
proof (induction "k - j" arbitrary: j s tr)
  case 0
  then show ?case by auto
next
  case (Suc m)
  then have jk: "j < k" and m: "m = k - Suc j"
    by simp_all
  have cnt: "n + (k - j) = Suc (n + (k - Suc j))"
    using jk by simp
  have inr: "j < length (config_descriptors d)"
    using jk assms(1) by simp
  have "skipped_config (config_descriptors d ! j)"
    using assms(2) jk inr by (simp add: list_all_length)
  then obtain c where c: "config_descriptors d ! j = (0, c)"
    and ty: "cfg_bDescriptorType c = LIBUSB_DT_CONFIG"
    and sk: "list_all skipped_interface (interface c)"
    by (cases "config_descriptors d ! j") (auto simp: skipped_config_def)
  obtain s1 where s1: "scan_interfaces d (interface c) s q i
      (tr @ [Libusb_get_config_descriptor d j]) = (Inr s1, tr @ [Libusb_get_config_descriptor d j])"
    using scan_interfaces_all_skipped [OF sk] by blast
  have step: "scan_configs d j (n + (k - j)) s q i tr =
      scan_configs d (Suc j) (n + (k - Suc j)) s1 q i (tr @ [Libusb_get_config_descriptor d j])"
    by (simp add: cnt get_config_in_range [OF inr] c ty s1)
  obtain s' where "scan_configs d (Suc j) (n + (k - Suc j)) s1 q i
        (tr @ [Libusb_get_config_descriptor d j]) =
      scan_configs d k n s' q i ((tr @ [Libusb_get_config_descriptor d j])
        @ map (Libusb_get_config_descriptor d) [Suc j ..< k])"
    using Suc.hyps(1) [OF m] jk by (metis Suc_leI)
  then show ?case
    using step jk by (auto simp: upt_conv_Cons)
qed

lemma parse_reaches:
  assumes "reaches d k"
  shows "\<exists>s'. parse_usb_desc d q i tr =
      scan_configs d k (unat (bNumConfigurations (snd (device_descriptor d))) - k) s' q i
        (tr @ Libusb_get_device_descriptor d # map (Libusb_get_config_descriptor d) [0 ..< k])"
proof -
  let ?n = "unat (bNumConfigurations (snd (device_descriptor d)))"
  obtain desc where dd: "device_descriptor d = (0, desc)"
    using assms by (cases "device_descriptor d") (auto simp: reaches_def)
  have id: "idVendor desc = 0x05c6" "idProduct desc = 0x9008"
    and ty: "dev_bDescriptorType desc = LIBUSB_DT_DEVICE"
    and k: "k < unat (bNumConfigurations desc)" "k \<le> length (config_descriptors d)"
    and sk: "list_all skipped_config (take k (config_descriptors d))"
    using assms dd by (auto simp: reaches_def identity_ok_def)
  obtain s' where "scan_configs d 0 ((unat (bNumConfigurations desc) - k) + (k - 0))
        locals_uninitialised q i (tr @ [Libusb_get_device_descriptor d]) =
      scan_configs d k (unat (bNumConfigurations desc) - k) s' q i
        ((tr @ [Libusb_get_device_descriptor d]) @ map (Libusb_get_config_descriptor d) [0 ..< k])"
    using scan_configs_skips [OF k(2) sk, of 0] by blast
  then show ?thesis
    using k(1) by (auto simp: parse_usb_desc_def dd id ty Let_def)
qed

lemma parse_passed_over:
  assumes "passed_over d"
  shows "parse_usb_desc d q i tr = (Return (- EINVAL, q, i), tr @ inspect_events d)"
proof -
  obtain desc where dd: "device_descriptor d = (0, desc)"
    using assms by (cases "device_descriptor d") (auto simp: passed_over_def)
  show ?thesis
  proof (cases "identity_ok desc")
    case False
    then show ?thesis
      by (auto simp: parse_usb_desc_def dd identity_ok_def inspect_events_def Let_def)
  next
    case True
    let ?n = "unat (bNumConfigurations desc)"
    have ty: "dev_bDescriptorType desc = LIBUSB_DT_DEVICE"
      and n: "?n \<le> length (config_descriptors d)"
      and sk: "list_all skipped_config (take ?n (config_descriptors d))"
      using assms dd True by (auto simp: passed_over_def)
    obtain s' where "scan_configs d 0 (0 + (?n - 0)) locals_uninitialised q i
          (tr @ [Libusb_get_device_descriptor d]) =
        scan_configs d ?n 0 s' q i
          ((tr @ [Libusb_get_device_descriptor d]) @ map (Libusb_get_config_descriptor d) [0 ..< ?n])"
      using scan_configs_skips [OF n sk, of 0] by blast
    then show ?thesis
      using True
      by (simp add: parse_usb_desc_def dd identity_ok_def ty inspect_events_def Let_def)
  qed
qed

lemma parse_device_fault:
  assumes "device_fault d"
  shows "parse_usb_desc d q i tr = (Return (- EINVAL, q, i), tr @ [Libusb_get_device_descriptor d])"
proof -
  obtain desc where dd: "device_descriptor d = (0, desc)"
    using assms by (cases "device_descriptor d") (auto simp: device_fault_def)
  show ?thesis
    using assms dd by (auto simp: parse_usb_desc_def device_fault_def identity_ok_def)
qed

lemma count_at: "k < n \<Longrightarrow> \<exists>m. n - k = Suc m \<and> m = n - Suc k"
  by simp

lemma upto_events: "tr @ Libusb_get_device_descriptor d # map (Libusb_get_config_descriptor d) [0 ..< k]
     @ [Libusb_get_config_descriptor d k] = tr @ events_upto d k"
  by (simp add: events_upto_def)

lemma parse_config_fault:
  assumes "config_fault d k"
  shows "parse_usb_desc d q i tr = (Return (- EINVAL, q, i), tr @ events_upto d k)"
proof -
  have r: "reaches d k" and ty: "cfg_bDescriptorType (snd (config_descriptors d ! k)) \<noteq> LIBUSB_DT_CONFIG"
    using assms by (simp_all add: config_fault_def)
  let ?n = "unat (bNumConfigurations (snd (device_descriptor d)))"
  have k: "k < ?n" "k < length (config_descriptors d)" "fst (config_descriptors d ! k) = 0"
    using r by (simp_all add: reaches_def)
  obtain s' where p: "parse_usb_desc d q i tr =
      scan_configs d k (?n - k) s' q i
        (tr @ Libusb_get_device_descriptor d # map (Libusb_get_config_descriptor d) [0 ..< k])"
    using parse_reaches [OF r] by blast
  obtain c where c: "config_descriptors d ! k = (0, c)"
    using k(3) by (cases "config_descriptors d ! k") auto
  obtain m where m: "?n - k = Suc m"
    using count_at [OF k(1)] by blast
  show ?thesis
    using ty
    by (simp add: p m get_config_in_range [OF k(2)] c events_upto_def)
qed

lemma parse_at_interface:
  assumes "reaches_interface d k j"
  shows "\<exists>s'. parse_usb_desc d q i tr =
      (case scan_interfaces d (interface (snd (config_descriptors d ! k)) ! j
                # drop (Suc j) (interface (snd (config_descriptors d ! k)))) s' q i
              (tr @ events_upto d k) of
         (Inl r, tr2) \<Rightarrow> (r, tr2)
       | (Inr s2, tr2) \<Rightarrow>
           scan_configs d (Suc k)
             (unat (bNumConfigurations (snd (device_descriptor d))) - Suc k) s2 q i tr2)"
proof -
  let ?n = "unat (bNumConfigurations (snd (device_descriptor d)))"
  have r: "reaches d k"
    using assms by (simp add: reaches_interface_def)
  have k: "k < ?n" "k < length (config_descriptors d)" "fst (config_descriptors d ! k) = 0"
    using r by (simp_all add: reaches_def)
  obtain cfg where c: "config_descriptors d ! k = (0, cfg)"
    using k(3) by (cases "config_descriptors d ! k") auto
  have ty: "cfg_bDescriptorType cfg = LIBUSB_DT_CONFIG"
    and j: "j < length (interface cfg)"
    and sk: "list_all skipped_interface (take j (interface cfg))"
    using assms c by (simp_all add: reaches_interface_def)
  obtain s0 where p: "parse_usb_desc d q i tr =
      scan_configs d k (?n - k) s0 q i
        (tr @ Libusb_get_device_descriptor d # map (Libusb_get_config_descriptor d) [0 ..< k])"
    using parse_reaches [OF r] by blast
  have split: "interface cfg = take j (interface cfg) @ (interface cfg ! j # drop (Suc j) (interface cfg))"
    using j by (simp add: Cons_nth_drop_Suc)
  obtain s' where "scan_interfaces d (take j (interface cfg) @ (interface cfg ! j # drop (Suc j) (interface cfg)))
        s0 q i (tr @ events_upto d k) =
      scan_interfaces d (interface cfg ! j # drop (Suc j) (interface cfg)) s' q i (tr @ events_upto d k)"
    using scan_interfaces_skips [OF sk] by blast
  then have si: "scan_interfaces d (interface cfg) s0 q i (tr @ events_upto d k) =
      scan_interfaces d (interface cfg ! j # drop (Suc j) (interface cfg)) s' q i (tr @ events_upto d k)"
    using split by simp
  obtain m where m: "?n - k = Suc m" and m': "m = ?n - Suc k"
    using count_at [OF k(1)] by blast
  have "parse_usb_desc d q i tr =
      (case scan_interfaces d (interface cfg) s0 q i (tr @ events_upto d k) of
         (Inl r, tr2) \<Rightarrow> (r, tr2)
       | (Inr s2, tr2) \<Rightarrow> scan_configs d (Suc k) m s2 q i tr2)"
    using ty
    by (simp add: p m get_config_in_range [OF k(2)] c events_upto_def
        del: scan_interfaces.simps)
  then have "parse_usb_desc d q i tr =
      (case scan_interfaces d (interface cfg ! j # drop (Suc j) (interface cfg)) s' q i
              (tr @ events_upto d k) of
         (Inl r, tr2) \<Rightarrow> (r, tr2)
       | (Inr s2, tr2) \<Rightarrow> scan_configs d (Suc k) (?n - Suc k) s2 q i tr2)"
    by (simp only: si m')
  then show ?thesis
    by (auto simp only: c snd_conv)
qed

lemma parse_interface_fault:
  assumes "interface_fault d k j"
  shows "parse_usb_desc d q i tr = (Return (- EINVAL, q, i), tr @ events_upto d k)"
proof -
  let ?ifc = "interface (snd (config_descriptors d ! k)) ! j"
  have r: "reaches_interface d k j"
    and f: "ifc_bDescriptorType ?ifc \<noteq> LIBUSB_DT_INTERFACE
            \<or> unat (ifc_bLength ?ifc) < LIBUSB_DT_INTERFACE_SIZE"
    using assms by (simp_all add: interface_fault_def)
  obtain s' where p: "parse_usb_desc d q i tr =
      (case scan_interfaces d (?ifc # drop (Suc j) (interface (snd (config_descriptors d ! k))))
              s' q i (tr @ events_upto d k) of
         (Inl r, tr2) \<Rightarrow> (r, tr2)
       | (Inr s2, tr2) \<Rightarrow>
           scan_configs d (Suc k)
             (unat (bNumConfigurations (snd (device_descriptor d))) - Suc k) s2 q i tr2)"
    using parse_at_interface [OF r] by blast
  show ?thesis
    by (simp only: p scan_interfaces_fault [OF f] prod.case sum.case)
qed

lemma parse_first_match:
  assumes "first_match d k j" and "open_device d = (0, h)"
  shows "\<exists>q'. parse_usb_desc d q i tr =
           (Return (0, q', uint (bInterfaceNumber (interface (snd (config_descriptors d ! k)) ! j))),
            tr @ events_upto d k @ [Libusb_open d])
         \<and> handle q' = Some h
         \<and> records_last (interface (snd (config_descriptors d ! k)) ! j) q'"
proof -
  let ?ifc = "interface (snd (config_descriptors d ! k)) ! j"
  have r: "reaches_interface d k j" and c: "consistent_interface ?ifc" and sg: "signature_ok ?ifc"
    using assms(1) by (simp_all add: first_match_def)
  obtain s' where p: "parse_usb_desc d q i tr =
      (case scan_interfaces d (?ifc # drop (Suc j) (interface (snd (config_descriptors d ! k))))
              s' q i (tr @ events_upto d k) of
         (Inl r, tr2) \<Rightarrow> (r, tr2)
       | (Inr s2, tr2) \<Rightarrow>
           scan_configs d (Suc k)
             (unat (bNumConfigurations (snd (device_descriptor d))) - Suc k) s2 q i tr2)"
    using parse_at_interface [OF r] by blast
  obtain q' where "scan_interfaces d (?ifc # drop (Suc j) (interface (snd (config_descriptors d ! k))))
        s' q i (tr @ events_upto d k) =
      (Inl (Return (0, q', uint (bInterfaceNumber ?ifc))), (tr @ events_upto d k) @ [Libusb_open d])"
    and "handle q' = Some h" and "records_last ?ifc q'"
    using scan_interfaces_selects [OF c sg assms(2)] by blast
  then show ?thesis
    by (auto simp only: p prod.case sum.case append_assoc)
qed

lemma usb_open_loop_passes:
  "list_all passed_over pre \<Longrightarrow>
     usb_open_loop (pre @ rest) q i tr =
       usb_open_loop rest q i (tr @ concat (map inspect_events pre))"
proof (induction pre arbitrary: tr)
  case Nil
  then show ?case by simp
next
  case (Cons d pre)
  then show ?case
    by (simp add: parse_passed_over EINVAL_def)
qed

lemma records_last_locals:
  assumes "scan_endpoints (endpoint ifc) s = Some s1"
    and "in_ep q = l_in s1" and "in_maxpktsize q = l_in_size s1"
    and "out_ep q = l_out s1" and "out_maxpktsize q = l_out_size s1"
  shows "records_last ifc q"
  using scan_endpoints_last [OF assms(1)] assms(2-5)
  by (simp add: records_last_def)

lemma scan_interfaces_found2:
  assumes "scan_interfaces d ifs s q i tr = (Inl (Return (0, q', i')), tr')"
  shows "\<exists>ifc \<in> set ifs. signature_ok ifc \<and> records_last ifc q'
       \<and> i' = uint (bInterfaceNumber ifc)
       \<and> handle q' = Some (snd (open_device d)) \<and> fst (open_device d) = 0"
proof -
  obtain ifc s0 s1 where "ifc \<in> set ifs" "signature_ok ifc"
       "scan_endpoints (endpoint ifc) s0 = Some s1"
       "in_ep q' = l_in s1" "in_maxpktsize q' = l_in_size s1"
       "out_ep q' = l_out s1" "out_maxpktsize q' = l_out_size s1"
       "i' = uint (bInterfaceNumber ifc)"
       "handle q' = Some (snd (open_device d))" "fst (open_device d) = 0"
    using scan_interfaces_found [OF assms] by blast
  then show ?thesis
    using records_last_locals [of ifc s0 s1 q'] by blast
qed

lemma scan_configs_found:
  "scan_configs d j n s q i tr = (Return (0, q', i'), tr') \<Longrightarrow>
     \<exists>rc \<in> set (config_descriptors d). \<exists>ifc \<in> set (interface (snd rc)).
       signature_ok ifc \<and> records_last ifc q' \<and> i' = uint (bInterfaceNumber ifc)
       \<and> handle q' = Some (snd (open_device d)) \<and> fst (open_device d) = 0"
proof (induction n arbitrary: j s tr)
  case 0
  then show ?case by (simp add: EINVAL_def)
next
  case (Suc n)
  obtain ret c where g: "libusb_get_config_descriptor d j = (ret, c)"
    by fastforce
  from Suc.prems g have ret: "ret = 0" and ty: "cfg_bDescriptorType c = LIBUSB_DT_CONFIG"
    by (auto simp: Let_def EINVAL_def split: if_splits)
  have inr: "j < length (config_descriptors d)"
    using g ret by (auto simp: libusb_get_config_descriptor_def LIBUSB_ERROR_NOT_FOUND_def
        split: if_splits)
  then have mem: "(ret, c) \<in> set (config_descriptors d)"
    using g nth_mem [of j "config_descriptors d"]
    by (simp add: libusb_get_config_descriptor_def)
  obtain r tr2 where si: "scan_interfaces d (interface c) s q i
      (tr @ [Libusb_get_config_descriptor d j]) = (r, tr2)"
    by fastforce
  show ?case
  proof (cases r)
    case (Inl a)
    with Suc.prems g ret ty si have
      "scan_interfaces d (interface c) s q i (tr @ [Libusb_get_config_descriptor d j]) =
         (Inl (Return (0, q', i')), tr')"
      by (simp add: Let_def)
    from scan_interfaces_found2 [OF this] mem show ?thesis
      by force
  next
    case (Inr s')
    with Suc.prems g ret ty si have
      "scan_configs d (Suc j) n s' q i tr2 = (Return (0, q', i'), tr')"
      by (simp add: Let_def)
    from Suc.IH [OF this] show ?thesis .
  qed
qed

lemma parse_found:
  assumes "parse_usb_desc d q i tr = (Return (0, q', i'), tr')"
  shows "fst (device_descriptor d) = 0 \<and> identity_ok (snd (device_descriptor d))
     \<and> (\<exists>rc \<in> set (config_descriptors d). \<exists>ifc \<in> set (interface (snd rc)).
          signature_ok ifc \<and> records_last ifc q' \<and> i' = uint (bInterfaceNumber ifc)
          \<and> handle q' = Some (snd (open_device d)) \<and> fst (open_device d) = 0)"
proof -
  obtain ret desc where dd: "device_descriptor d = (ret, desc)"
    by fastforce
  from assms dd have ret: "ret = 0" and id: "identity_ok desc"
    and sc: "scan_configs d 0 (unat (bNumConfigurations desc)) locals_uninitialised q i
        (tr @ [Libusb_get_device_descriptor d]) = (Return (0, q', i'), tr')"
    by (auto simp: parse_usb_desc_def Let_def EINVAL_def identity_ok_def split: if_splits)
  from scan_configs_found [OF sc] ret id dd show ?thesis
    by simp
qed

lemma usb_open_loop_found:
  "usb_open_loop ds q i tr = (Return (Some (q', i')), tr') \<Longrightarrow>
     \<exists>d \<in> set ds. \<exists>q0 i0 tr0 tr1. parse_usb_desc d q0 i0 tr0 = (Return (0, q', i'), tr1)"
proof (induction ds arbitrary: q i tr)
  case Nil
  then show ?case by simp
next
  case (Cons d ds)
  obtain r tr1 where p: "parse_usb_desc d q i tr = (r, tr1)"
    by fastforce
  show ?case
  proof (cases r)
    case (Return x)
    obtain ret q1 i1 where x: "x = (ret, q1, i1)"
      by (cases x) auto
    show ?thesis
    proof (cases "ret = 0")
      case True
      with Cons.prems p Return x have "parse_usb_desc d q i tr = (Return (0, q', i'), tr')"
        by simp
      then show ?thesis by auto
    next
      case False
      with Cons.prems p Return x have
        "usb_open_loop ds q1 i1 tr1 = (Return (Some (q', i')), tr')"
        by simp
      from Cons.IH [OF this] show ?thesis by auto
    qed
  next
    case (Exit c)
    with Cons.prems p show ?thesis by simp
  next
    case Undefined_behaviour
    with Cons.prems p show ?thesis by simp
  qed
qed

lemma usb_open_found:
  assumes "usb_open host q tr = (Return (0, q'), tr')"
  shows "\<exists>d \<in> set (snd (libusb_get_device_list host)). \<exists>q0 i0 tr0 tr1 i'.
           parse_usb_desc d q0 i0 tr0 = (Return (0, q', i'), tr1)"
proof -
  obtain usb_size devs where l: "libusb_get_device_list host = (usb_size, devs)"
    by fastforce
  from assms l obtain i' tr3 where
    "usb_open_loop (take (nat usb_size) devs) q (- 1)
       (tr @ [Libusb_init, Libusb_get_device_list]) = (Return (Some (q', i')), tr3)"
    by (auto simp: usb_open_def Let_def ENOENT_def
        split: if_splits prod.splits outcome.splits option.splits)
  from usb_open_loop_found [OF this] obtain d q0 i0 tr0 tr1 where
    "d \<in> set (take (nat usb_size) devs)"
    "parse_usb_desc d q0 i0 tr0 = (Return (0, q', i'), tr1)"
    by blast
  then have "d \<in> set devs"
    and "\<exists>q0 i0 tr0 tr1 i'. parse_usb_desc d q0 i0 tr0 = (Return (0, q', i'), tr1)"
    by (blast dest: in_set_takeD)+
  then show ?thesis
    unfolding l snd_conv by blast
qed

lemma scan_endpoints_untyped:
  "\<not> list_all (\<lambda>e. ep_bDescriptorType e = LIBUSB_DT_ENDPOINT) es \<Longrightarrow>
     scan_endpoints es s = None"
  by (induction es arbitrary: s) auto

lemma scan_interfaces_inconsistent:
  assumes "\<not> consistent_interface ifc"
  shows "scan_interfaces d (ifc # rest) s q i tr = (Inl (Return (- EINVAL, q, i)), tr)"
proof (cases "list_all (\<lambda>e. ep_bDescriptorType e = LIBUSB_DT_ENDPOINT) (endpoint ifc)")
  case True
  then show ?thesis
    using assms by (auto simp: consistent_interface_def)
next
  case False
  then show ?thesis
    by (simp add: scan_endpoints_untyped)
qed

lemma parse_inconsistent_at:
  assumes "inconsistent_at d k j"
  shows "parse_usb_desc d q i tr = (Return (- EINVAL, q, i), tr @ events_upto d k)"
proof -
  let ?ifc = "interface (snd (config_descriptors d ! k)) ! j"
  have r: "reaches_interface d k j" and f: "\<not> consistent_interface ?ifc"
    using assms by (simp_all add: inconsistent_at_def)
  obtain s' where p: "parse_usb_desc d q i tr =
      (case scan_interfaces d (?ifc # drop (Suc j) (interface (snd (config_descriptors d ! k))))
              s' q i (tr @ events_upto d k) of
         (Inl r, tr2) \<Rightarrow> (r, tr2)
       | (Inr s2, tr2) \<Rightarrow>
           scan_configs d (Suc k)
             (unat (bNumConfigurations (snd (device_descriptor d))) - Suc k) s2 q i tr2)"
    using parse_at_interface [OF r] by blast
  show ?thesis
    by (simp only: p scan_interfaces_inconsistent [OF f] prod.case sum.case)
qed

lemma takeWhile_prefix_length:
  assumes "n \<le> length xs" and "list_all P (take n xs)"
  shows "n \<le> length (takeWhile P xs)"
proof -
  have "takeWhile P (take n xs @ drop n xs) = take n xs @ takeWhile P (drop n xs)"
    using assms(2) by (intro takeWhile_append2) (simp add: list_all_iff)
  then have "length (takeWhile P xs) = n + length (takeWhile P (drop n xs))"
    using assms(1) by simp
  then show ?thesis by simp
qed

lemma fault_config_eq:
  assumes "reaches d k" and "\<not> skipped_config (config_descriptors d ! k)"
  shows "fault_config d = k"
proof -
  let ?xs = "config_descriptors d"
  have k: "k < length ?xs" and sk: "list_all skipped_config (take k ?xs)"
    using assms(1) by (simp_all add: reaches_def)
  have split: "?xs = take k ?xs @ (?xs ! k # drop (Suc k) ?xs)"
    using k by (simp add: Cons_nth_drop_Suc)
  have "takeWhile skipped_config (take k ?xs @ (?xs ! k # drop (Suc k) ?xs)) =
        take k ?xs @ takeWhile skipped_config (?xs ! k # drop (Suc k) ?xs)"
    using sk by (intro takeWhile_append2) (simp add: list_all_iff)
  then have "takeWhile skipped_config ?xs = take k ?xs"
    using split assms(2) by simp
  then show ?thesis
    using k by (simp add: fault_config_def)
qed

lemma skip_events_passed_over:
  assumes "passed_over d"
  shows "skip_events d = inspect_events d"
proof (cases "identity_ok (snd (device_descriptor d))")
  case False
  then show ?thesis
    by (simp add: skip_events_def inspect_events_def)
next
  case True
  let ?n = "unat (bNumConfigurations (snd (device_descriptor d)))"
  have ty: "dev_bDescriptorType (snd (device_descriptor d)) = LIBUSB_DT_DEVICE"
    and n: "?n \<le> length (config_descriptors d)"
    and sk: "list_all skipped_config (take ?n (config_descriptors d))"
    using assms True by (simp_all add: passed_over_def)
  have "?n \<le> fault_config d"
    unfolding fault_config_def by (rule takeWhile_prefix_length [OF n sk])
  then have "min ?n (Suc (fault_config d)) = ?n"
    by simp
  then show ?thesis
    using True ty by (simp add: skip_events_def inspect_events_def)
qed

lemma skip_events_reaches:
  assumes "reaches d (fault_config d)"
  shows "skip_events d = events_upto d (fault_config d)"
proof -
  have "fault_config d < unat (bNumConfigurations (snd (device_descriptor d)))"
    and "identity_ok (snd (device_descriptor d))"
    and "dev_bDescriptorType (snd (device_descriptor d)) = LIBUSB_DT_DEVICE"
    using assms by (simp_all add: reaches_def)
  then show ?thesis
    by (simp add: skip_events_def events_upto_def min_absorb2 Suc_leI del: upt_Suc)
qed

lemma skip_events_device_fault:
  "device_fault d \<Longrightarrow> skip_events d = [Libusb_get_device_descriptor d]"
  by (simp add: skip_events_def device_fault_def)

lemma parse_skipped_device:
  assumes "skipped_device d"
  shows "parse_usb_desc d q i tr = (Return (- EINVAL, q, i), tr @ skip_events d)"
proof -
  let ?k = "fault_config d"
  consider "passed_over d" | "device_fault d" | "config_fault d ?k"
    | j where "inconsistent_at d ?k j"
    using assms by (auto simp: skipped_device_def list_ex_iff)
  then show ?thesis
  proof cases
    case 1
    then show ?thesis
      by (simp add: parse_passed_over skip_events_passed_over)
  next
    case 2
    then show ?thesis
      by (simp add: parse_device_fault skip_events_device_fault)
  next
    case 3
    then have "reaches d ?k"
      by (simp add: config_fault_def)
    then show ?thesis
      using 3 by (simp add: parse_config_fault skip_events_reaches)
  next
    case 4
    then have "reaches d ?k"
      by (simp add: inconsistent_at_def reaches_interface_def)
    then show ?thesis
      using 4 by (simp add: parse_inconsistent_at skip_events_reaches)
  qed
qed

lemma skipped_deviceI:
  assumes "passed_over d \<or> device_fault d \<or> config_fault d k \<or> interface_fault d k j
           \<or> inconsistent_at d k j"
  shows "skipped_device d"
proof -
  have inc: "skipped_device d" if a: "inconsistent_at d k j" for j
  proof -
    let ?c = "snd (config_descriptors d ! k)"
    have r: "reaches d k" and j: "j < length (interface ?c)"
      and n: "\<not> consistent_interface (interface ?c ! j)"
      using a by (simp_all add: inconsistent_at_def reaches_interface_def)
    have "\<not> skipped_interface (interface ?c ! j)"
      using n by (simp add: skipped_interface_def)
    then have "\<not> list_all skipped_interface (interface ?c)"
      using j by (auto simp: list_all_length)
    then have "\<not> skipped_config (config_descriptors d ! k)"
      by (simp add: skipped_config_def)
    then have "fault_config d = k"
      by (rule fault_config_eq [OF r])
    then show ?thesis
      using a j by (auto simp: skipped_device_def list_ex_iff)
  qed
  have cf: "skipped_device d" if a: "config_fault d k"
  proof -
    have r: "reaches d k" and "\<not> skipped_config (config_descriptors d ! k)"
      using a by (simp_all add: config_fault_def skipped_config_def)
    then have "fault_config d = k"
      using fault_config_eq by blast
    then show ?thesis
      using a by (simp add: skipped_device_def)
  qed
  have "inconsistent_at d k j" if "interface_fault d k j"
    using that
    by (auto simp: interface_fault_def inconsistent_at_def consistent_interface_def)
  then show ?thesis
    using assms inc cf by (auto simp: skipped_device_def)
qed

lemma usb_open_loop_skips:
  "list_all skipped_device pre \<Longrightarrow>
     usb_open_loop (pre @ rest) q i tr =
       usb_open_loop rest q i (tr @ concat (map skip_events pre))"
proof (induction pre arbitrary: tr)
  case Nil
  then show ?case by simp
next
  case (Cons d pre)
  then show ?case
    by (simp add: parse_skipped_device EINVAL_def)
qed

lemma usb_open_selects:
  assumes "libusb_init_ret host = 0"
    and "libusb_get_device_list host = (int (length (pre @ d # post)), pre @ d # post)"
    and "list_all skipped_device pre" and "first_match d k j" and "open_device d = (0, h)"
    and "libusb_claim_interface host h
           (uint (bInterfaceNumber (interface (snd (config_descriptors d ! k)) ! j))) = 0"
  shows "\<exists>q'. usb_open host q tr =
           (Return (0, q'),
            tr @ [Libusb_init, Libusb_get_device_list] @ concat (map skip_events pre)
               @ events_upto d k
               @ [Libusb_open d, Libusb_free_device_list,
                  Libusb_claim_interface h
                    (uint (bInterfaceNumber (interface (snd (config_descriptors d ! k)) ! j)))])
         \<and> handle q' = Some h
         \<and> records_last (interface (snd (config_descriptors d ! k)) ! j) q'"
proof -
  let ?intf = "uint (bInterfaceNumber (interface (snd (config_descriptors d ! k)) ! j))"
  let ?tr2 = "tr @ [Libusb_init, Libusb_get_device_list]"
  let ?tr3 = "?tr2 @ concat (map skip_events pre)"
  obtain q' where p: "parse_usb_desc d q (- 1) ?tr3 =
      (Return (0, q', ?intf), ?tr3 @ events_upto d k @ [Libusb_open d])"
    and h: "handle q' = Some h"
    and rl: "records_last (interface (snd (config_descriptors d ! k)) ! j) q'"
    using parse_first_match [OF assms(4,5)] by blast
  have loop: "usb_open_loop (pre @ d # post) q (- 1) ?tr2 =
      (Return (Some (q', ?intf)), ?tr3 @ events_upto d k @ [Libusb_open d])"
    by (simp only: usb_open_loop_skips [OF assms(3)] usb_open_loop.simps p prod.case
        outcome.case if_True simp_thms)
  have "usb_open host q tr =
           (Return (0, q'),
            tr @ [Libusb_init, Libusb_get_device_list] @ concat (map skip_events pre)
               @ events_upto d k
               @ [Libusb_open d, Libusb_free_device_list, Libusb_claim_interface h ?intf])"
    using loop h
    by (simp add: usb_open_def assms(1,2,6) Let_def del: usb_open_loop.simps)
  then show ?thesis
    using h rl by blast
qed

lemmas concrete_defs =
  usb_open_def host_with_def parse_usb_desc_def usb_device_def download_device_def
  bare_device_def carrying_device_def mistyped_device_def foreign_device_def truncated_device_def two_in_device_def
  vendor_interface_def ep_bulk_in_def ep_bulk_out_def ep_interrupt_in_def ep_bulk_in_second_def
  libusb_get_config_descriptor_def locals_uninitialised_def qdl_uninitialised_def
  LIBUSB_DT_DEVICE_def LIBUSB_DT_CONFIG_def LIBUSB_DT_INTERFACE_def LIBUSB_DT_ENDPOINT_def
  LIBUSB_DT_INTERFACE_SIZE_def LIBUSB_TRANSFER_TYPE_MASK_def LIBUSB_TRANSFER_TYPE_BULK_def
  LIBUSB_ENDPOINT_IN_def EINVAL_def ENOENT_def Let_def

lemmas notion_defs =
  passed_over_def first_match_def reaches_interface_def reaches_def identity_ok_def
  signature_ok_def consistent_interface_def skipped_interface_def skipped_config_def
  device_fault_def config_fault_def interface_fault_def inspect_events_def events_upto_def
  bulk_in_def bulk_out_def records_last_def

lemmas more_defs = late_match_device_def second_config_device_def data_interface_def
  inconsistent_at_def fault_config_def skipped_device_def skip_events_def

subsection \<open>Selection of the device and the interface\<close>

text \<open>
  C2, as amended. Whenever \<^verbatim>\<open>usb_open\<close> selects a session, some device of the list has
  the fixed vendor/product identity and an interface passing the signature, and the
  session holds the handle of that device. A device of another identity never makes
  \<^verbatim>\<open>parse_usb_desc\<close> return 0, whatever its interfaces are. And when the libusb calls
  answer without error, every device of \<open>pre\<close> is skipped (its identity differs, or none
  of its interfaces passes the signature, or its scan meets an inconsistent descriptor
  before any interface that passes), and interface \<open>j\<close> of configuration \<open>k\<close> of device
  \<open>d\<close> is the first interface of \<open>d\<close> to pass the filter (every interface before it being
  consistent and failing the signature, whatever its endpoints), then that interface
  is selected: the calls made are those on \<open>pre\<close>, the descriptors of \<open>d\<close> up to
  configuration \<open>k\<close>, \<^verbatim>\<open>libusb_open\<close> on \<open>d\<close>, the release of the list and the claim of
  the interface, and nothing else; the devices \<open>post\<close> and the later configurations and
  interfaces of \<open>d\<close> are arbitrary and never inspected.
\<close>

theorem first_matching_interface_selected:
  "(usb_open host q tr = (Return (0, q'), tr') \<longrightarrow>
      (\<exists>x \<in> set (snd (libusb_get_device_list host)).
          identity_ok (snd (device_descriptor x))
          \<and> (\<exists>rc \<in> set (config_descriptors x). \<exists>ifc \<in> set (interface (snd rc)).
                signature_ok ifc)
          \<and> handle q' = Some (snd (open_device x))))
   \<and> (\<not> identity_ok (snd (device_descriptor d)) \<longrightarrow>
        (\<forall>q1 i1. fst (parse_usb_desc d q i tr) \<noteq> Return (0, q1, i1)))
   \<and> (libusb_init_ret host = 0
        \<and> libusb_get_device_list host = (int (length (pre @ d # post)), pre @ d # post)
        \<and> list_all skipped_device pre \<and> first_match d k j \<and> open_device d = (0, h)
        \<and> libusb_claim_interface host h
             (uint (bInterfaceNumber (interface (snd (config_descriptors d ! k)) ! j))) = 0
        \<longrightarrow>
        (\<exists>q2. usb_open host q tr =
           (Return (0, q2),
            tr @ [Libusb_init, Libusb_get_device_list] @ concat (map skip_events pre)
               @ events_upto d k
               @ [Libusb_open d, Libusb_free_device_list,
                  Libusb_claim_interface h
                    (uint (bInterfaceNumber (interface (snd (config_descriptors d ! k)) ! j)))])
         \<and> handle q2 = Some h))"
proof (intro conjI impI allI)
  assume "usb_open host q tr = (Return (0, q'), tr')"
  from usb_open_found [OF this] obtain x q0 i0 tr0 tr1 i' where
    x: "x \<in> set (snd (libusb_get_device_list host))"
    and p: "parse_usb_desc x q0 i0 tr0 = (Return (0, q', i'), tr1)"
    by blast
  from parse_found [OF p] have "identity_ok (snd (device_descriptor x))
      \<and> (\<exists>rc \<in> set (config_descriptors x). \<exists>ifc \<in> set (interface (snd rc)). signature_ok ifc)
      \<and> handle q' = Some (snd (open_device x))"
    by blast
  with x show "\<exists>x \<in> set (snd (libusb_get_device_list host)).
          identity_ok (snd (device_descriptor x))
          \<and> (\<exists>rc \<in> set (config_descriptors x). \<exists>ifc \<in> set (interface (snd rc)).
                signature_ok ifc)
          \<and> handle q' = Some (snd (open_device x))"
    by blast
next
  fix q1 i1
  assume n: "\<not> identity_ok (snd (device_descriptor d))"
  show "fst (parse_usb_desc d q i tr) \<noteq> Return (0, q1, i1)"
  proof
    assume "fst (parse_usb_desc d q i tr) = Return (0, q1, i1)"
    then have "parse_usb_desc d q i tr = (Return (0, q1, i1), snd (parse_usb_desc d q i tr))"
      by (simp add: prod_eq_iff)
    from parse_found [OF this] n show False
      by simp
  qed
next
  assume a: "libusb_init_ret host = 0
        \<and> libusb_get_device_list host = (int (length (pre @ d # post)), pre @ d # post)
        \<and> list_all skipped_device pre \<and> first_match d k j \<and> open_device d = (0, h)
        \<and> libusb_claim_interface host h
             (uint (bInterfaceNumber (interface (snd (config_descriptors d ! k)) ! j))) = 0"
  then show "\<exists>q2. usb_open host q tr =
           (Return (0, q2),
            tr @ [Libusb_init, Libusb_get_device_list] @ concat (map skip_events pre)
               @ events_upto d k
               @ [Libusb_open d, Libusb_free_device_list,
                  Libusb_claim_interface h
                    (uint (bInterfaceNumber (interface (snd (config_descriptors d ! k)) ! j)))])
         \<and> handle q2 = Some h"
    using usb_open_selects [of host pre d post k j h q tr] by blast
qed

text \<open>
  A foreign device with the vendor-specific interface, a device with a mistyped device
  descriptor, a device whose vendor-specific interface follows an interface that is too
  short, a device whose vendor-specific interface is the second interface of its
  second configuration, and a fifth device: the interface of the fourth is selected
  after two interfaces failing the signature were skipped, and the fifth device is not
  inspected.
\<close>

theorem first_matching_interface_selected_witness:
  "list_all skipped_device [foreign_device, mistyped_device, late_match_device]
   \<and> first_match second_config_device 1 1
   \<and> \<not> identity_ok (snd (device_descriptor foreign_device))
   \<and> (\<forall>q1 i1. fst (parse_usb_desc foreign_device qdl_uninitialised (- 1) [])
         \<noteq> Return (0, q1, i1))
   \<and> (\<exists>q2. usb_open
              (host_with [foreign_device, mistyped_device, late_match_device,
                          second_config_device, bare_device])
              qdl_uninitialised [] =
         (Return (0, q2),
          [Libusb_init, Libusb_get_device_list, Libusb_get_device_descriptor foreign_device,
           Libusb_get_device_descriptor mistyped_device,
           Libusb_get_device_descriptor late_match_device,
           Libusb_get_config_descriptor late_match_device 0,
           Libusb_get_device_descriptor second_config_device,
           Libusb_get_config_descriptor second_config_device 0,
           Libusb_get_config_descriptor second_config_device 1,
           Libusb_open second_config_device,
           Libusb_free_device_list, Libusb_claim_interface 13 1])
         \<and> handle q2 = Some 13)
   \<and> (\<exists>x \<in> set [foreign_device, mistyped_device, late_match_device, second_config_device,
                   bare_device].
         identity_ok (snd (device_descriptor x)) \<and> Some (13 :: nat) = Some (snd (open_device x)))"
proof -
  let ?host = "host_with [foreign_device, mistyped_device, late_match_device,
                          second_config_device, bare_device]"
  have po: "passed_over foreign_device"
    by (simp add: notion_defs concrete_defs)
  have df: "device_fault mistyped_device"
    by (simp add: notion_defs concrete_defs)
  have jf: "interface_fault late_match_device 0 0"
    by (simp add: notion_defs concrete_defs more_defs)
  have sk: "list_all skipped_device [foreign_device, mistyped_device, late_match_device]"
    using skipped_deviceI [of foreign_device] skipped_deviceI [of mistyped_device]
      skipped_deviceI [of late_match_device 0 0] po df jf
    by simp
  have fm: "first_match second_config_device 1 1"
    by (simp add: notion_defs concrete_defs more_defs)
  have ni: "\<not> identity_ok (snd (device_descriptor foreign_device))"
    by (simp add: notion_defs concrete_defs)
  have ev: "skip_events foreign_device = [Libusb_get_device_descriptor foreign_device]"
    "skip_events mistyped_device = [Libusb_get_device_descriptor mistyped_device]"
    "skip_events late_match_device =
       [Libusb_get_device_descriptor late_match_device,
        Libusb_get_config_descriptor late_match_device 0]"
    using skip_events_passed_over [OF po] skip_events_device_fault [OF df]
    by (simp_all add: inspect_events_def ni)
      (simp add: notion_defs concrete_defs more_defs)
  have hyp: "libusb_init_ret ?host = 0
        \<and> libusb_get_device_list ?host =
            (int (length ([foreign_device, mistyped_device, late_match_device]
                    @ second_config_device # [bare_device])),
             [foreign_device, mistyped_device, late_match_device]
               @ second_config_device # [bare_device])
        \<and> list_all skipped_device [foreign_device, mistyped_device, late_match_device]
        \<and> first_match second_config_device 1 1
        \<and> open_device second_config_device = (0, 13)
        \<and> libusb_claim_interface ?host 13
             (uint (bInterfaceNumber
                (interface (snd (config_descriptors second_config_device ! 1)) ! 1))) = 0"
    using sk fm by (simp add: host_with_def second_config_device_def)
  note inst = first_matching_interface_selected
    [where host = ?host
       and q = qdl_uninitialised and tr = "[]" and d = second_config_device
       and pre = "[foreign_device, mistyped_device, late_match_device]"
       and post = "[bare_device]" and k = 1 and j = 1 and h = 13]
  have intf: "uint (bInterfaceNumber
        (interface (snd (config_descriptors second_config_device ! Suc 0)) ! Suc 0)) = 1"
    by (simp add: concrete_defs more_defs)
  from inst [THEN conjunct2, THEN conjunct2, rule_format, OF hyp]
  have sel: "\<exists>q2. usb_open ?host qdl_uninitialised [] =
         (Return (0, q2),
          [Libusb_init, Libusb_get_device_list, Libusb_get_device_descriptor foreign_device,
           Libusb_get_device_descriptor mistyped_device,
           Libusb_get_device_descriptor late_match_device,
           Libusb_get_config_descriptor late_match_device 0,
           Libusb_get_device_descriptor second_config_device,
           Libusb_get_config_descriptor second_config_device 0,
           Libusb_get_config_descriptor second_config_device 1,
           Libusb_open second_config_device,
           Libusb_free_device_list, Libusb_claim_interface 13 1])
         \<and> handle q2 = Some 13"
    by (simp add: ev events_upto_def intf)
  then obtain q2 tr2 where run: "usb_open ?host qdl_uninitialised [] = (Return (0, q2), tr2)"
    and h2: "handle q2 = Some 13"
    by blast
  from first_matching_interface_selected [THEN conjunct1, rule_format, OF run] h2
  have found: "\<exists>x \<in> set [foreign_device, mistyped_device, late_match_device,
                            second_config_device, bare_device].
         identity_ok (snd (device_descriptor x)) \<and> Some (13 :: nat) = Some (snd (open_device x))"
    by (auto simp: host_with_def)
  from first_matching_interface_selected
    [where d = foreign_device and q = qdl_uninitialised and i = "- 1" and tr = "[]",
     THEN conjunct2, THEN conjunct1, rule_format, OF ni]
  have never: "\<forall>q1 i1. fst (parse_usb_desc foreign_device qdl_uninitialised (- 1) [])
         \<noteq> Return (0, q1, i1)"
    by blast
  show ?thesis
    using sk fm ni never sel found by blast
qed

text \<open>
  C2 as stated fails: a device with the fixed identity and an interface passing the
  signature yields no session when a descriptor met before that interface is
  inconsistent, and a device later in the list is selected instead when there is one.
\<close>

theorem later_interface_not_selected_counterexample:
  "identity_ok (snd (device_descriptor late_match_device))
   \<and> signature_ok (interface (snd (config_descriptors late_match_device ! 0)) ! 1)
   \<and> usb_open (host_with [late_match_device]) qdl_uninitialised [] =
       (Return (- 2, qdl_uninitialised),
        [Libusb_init, Libusb_get_device_list, Libusb_get_device_descriptor late_match_device,
         Libusb_get_config_descriptor late_match_device 0])
   \<and> usb_open (host_with [late_match_device, download_device]) qdl_uninitialised [] =
       (Return (0, \<lparr>handle = Some 7, in_ep = Some 129, out_ep = Some 1,
                    in_maxpktsize = Some 512, out_maxpktsize = Some 512\<rparr>),
        [Libusb_init, Libusb_get_device_list, Libusb_get_device_descriptor late_match_device,
         Libusb_get_config_descriptor late_match_device 0,
         Libusb_get_device_descriptor download_device,
         Libusb_get_config_descriptor download_device 0, Libusb_open download_device,
         Libusb_free_device_list, Libusb_claim_interface 7 0])"
  by (simp add: notion_defs concrete_defs more_defs)

subsection \<open>The endpoint scan\<close>



subsection \<open>Inconsistent descriptors\<close>

text \<open>
  C7, as amended. When the scan of a device meets a successfully read descriptor that is
  inconsistent (a device descriptor of the wrong type, a configuration descriptor of
  the wrong type, an interface descriptor of the wrong type or below the minimum
  length), \<^verbatim>\<open>parse_usb_desc\<close> returns \<open>-EINVAL\<close> for that device at once, leaving the
  session and the interface number untouched and the device unopened; the loop of
  \<^verbatim>\<open>usb_open\<close> then goes on with the next device of the list.
\<close>

theorem inconsistent_descriptor_skips_device:
  "(device_fault d \<longrightarrow>
      parse_usb_desc d q i tr = (Return (- EINVAL, q, i), tr @ [Libusb_get_device_descriptor d])
      \<and> usb_open_loop (d # ds) q i tr =
          usb_open_loop ds q i (tr @ [Libusb_get_device_descriptor d]))
   \<and> (config_fault d k \<or> interface_fault d k j \<longrightarrow>
        parse_usb_desc d q i tr = (Return (- EINVAL, q, i), tr @ events_upto d k)
        \<and> usb_open_loop (d # ds) q i tr = usb_open_loop ds q i (tr @ events_upto d k))"
proof (intro conjI impI)
  assume f: "device_fault d"
  show "parse_usb_desc d q i tr = (Return (- EINVAL, q, i), tr @ [Libusb_get_device_descriptor d])"
    by (rule parse_device_fault [OF f])
  then show "usb_open_loop (d # ds) q i tr =
      usb_open_loop ds q i (tr @ [Libusb_get_device_descriptor d])"
    by (simp add: EINVAL_def)
next
  assume f: "config_fault d k \<or> interface_fault d k j"
  show p: "parse_usb_desc d q i tr = (Return (- EINVAL, q, i), tr @ events_upto d k)"
    using f parse_config_fault parse_interface_fault by blast
  show "usb_open_loop (d # ds) q i tr = usb_open_loop ds q i (tr @ events_upto d k)"
    by (simp add: p EINVAL_def)
qed

text \<open>
  A device whose device descriptor has type 0, and a device whose interface descriptor
  has length 8.
\<close>

theorem inconsistent_descriptor_skips_device_witness:
  "device_fault mistyped_device \<and> interface_fault truncated_device 0 0
   \<and> parse_usb_desc mistyped_device qdl_uninitialised (- 1) [] =
       (Return (- 22, qdl_uninitialised, - 1), [Libusb_get_device_descriptor mistyped_device])
   \<and> usb_open_loop [mistyped_device, download_device] qdl_uninitialised (- 1) [] =
       usb_open_loop [download_device] qdl_uninitialised (- 1)
         [Libusb_get_device_descriptor mistyped_device]
   \<and> parse_usb_desc truncated_device qdl_uninitialised (- 1) [] =
       (Return (- 22, qdl_uninitialised, - 1),
        [Libusb_get_device_descriptor truncated_device,
         Libusb_get_config_descriptor truncated_device 0])
   \<and> usb_open_loop [truncated_device] qdl_uninitialised (- 1) [] =
       (Return None,
        [Libusb_get_device_descriptor truncated_device,
         Libusb_get_config_descriptor truncated_device 0])"
proof -
  have df: "device_fault mistyped_device"
    by (simp add: notion_defs concrete_defs)
  have jf: "interface_fault truncated_device 0 0"
    by (simp add: notion_defs concrete_defs)
  then have cj: "config_fault truncated_device 0 \<or> interface_fault truncated_device 0 0"
    by simp
  note a = inconsistent_descriptor_skips_device
    [where d = mistyped_device and q = qdl_uninitialised and i = "- 1" and tr = "[]"
       and ds = "[download_device]", THEN conjunct1, rule_format, OF df]
  note b = inconsistent_descriptor_skips_device
    [where d = truncated_device and q = qdl_uninitialised and i = "- 1" and tr = "[]"
       and ds = "[]" and k = 0 and j = 0, THEN conjunct2, rule_format, OF cj]
  show ?thesis
    using df jf a b by (simp add: EINVAL_def events_upto_def)
qed

text \<open>
  C7 as stated fails: after the device with the inconsistent device descriptor the next
  device is inspected, and a session is selected on it.
\<close>

theorem enumeration_continues_counterexample:
  "usb_open (host_with [mistyped_device, download_device]) qdl_uninitialised [] =
     (Return (0, \<lparr>handle = Some 7, in_ep = Some 129, out_ep = Some 1,
                  in_maxpktsize = Some 512, out_maxpktsize = Some 512\<rparr>),
      [Libusb_init, Libusb_get_device_list, Libusb_get_device_descriptor mistyped_device,
       Libusb_get_device_descriptor download_device,
       Libusb_get_config_descriptor download_device 0, Libusb_open download_device,
       Libusb_free_device_list, Libusb_claim_interface 7 0])"
  by (simp add: concrete_defs)

subsection \<open>Sessions without endpoints\<close>

text \<open>
  C8. The code does not keep this invariant. For a download-mode device whose
  vendor-specific interface has no endpoints, \<^verbatim>\<open>usb_open\<close> returns 0 with a session
  whose handle is open and whose interface is claimed, but whose endpoint addresses
  and packet sizes are the indeterminate values of the locals \<^verbatim>\<open>in\<close>, \<^verbatim>\<open>out\<close>,
  \<^verbatim>\<open>in_size\<close> and \<^verbatim>\<open>out_size\<close>, which no scanned endpoint ever assigned. When an
  interface scanned before it has bulk endpoints, the session holds the endpoints of
  that other interface, which is not the one claimed.
\<close>

theorem unpopulated_session:
  "usb_open (host_with [bare_device]) qdl_uninitialised [] =
     (Return (0, \<lparr>handle = Some 8, in_ep = None, out_ep = None, in_maxpktsize = None,
                  out_maxpktsize = None\<rparr>),
      [Libusb_init, Libusb_get_device_list, Libusb_get_device_descriptor bare_device,
       Libusb_get_config_descriptor bare_device 0, Libusb_open bare_device,
       Libusb_free_device_list, Libusb_claim_interface 8 0])
   \<and> usb_open (host_with [carrying_device]) qdl_uninitialised [] =
     (Return (0, \<lparr>handle = Some 8, in_ep = Some 129, out_ep = Some 1,
                  in_maxpktsize = Some 512, out_maxpktsize = Some 512\<rparr>),
      [Libusb_init, Libusb_get_device_list, Libusb_get_device_descriptor carrying_device,
       Libusb_get_config_descriptor carrying_device 0, Libusb_open carrying_device,
       Libusb_free_device_list, Libusb_claim_interface 8 1])"
  by (simp add: concrete_defs)

end
